theory Spec2Isabelle
  imports Main
begin

unbundle bit_operations_syntax

section \<open>Bytes, runes and names\<close>

text \<open>
  A Go \<^verbatim>\<open>string\<close> and a \<^verbatim>\<open>[]byte\<close> are byte sequences: \<^typ>\<open>string\<close>.
  A \<^verbatim>\<open>rune\<close> is a signed integer; \<^verbatim>\<open>rune(b)\<close> of a byte is \<open>of_char b\<close> and
  \<^verbatim>\<open>byte(r)\<close> is \<open>char_of r\<close> (the low eight bits).
\<close>

abbreviation rune :: "char \<Rightarrow> int" where
  "rune b \<equiv> of_char b"

definition tabwidth :: nat where
  "tabwidth = 8"

definition eofRune :: int where
  "eofRune = - 1"

definition isAlpha :: "int \<Rightarrow> bool" where
  "isAlpha c = (let c' = c AND NOT 0x20 in rune CHR ''A'' \<le> c' \<and> c' \<le> rune CHR ''Z'')"

definition isKeyChar :: "int \<Rightarrow> bool" where
  "isKeyChar c = (isAlpha c \<or> (rune CHR ''0'' \<le> c \<and> c \<le> rune CHR ''9'') \<or> c = rune CHR ''-'')"

text \<open>
  \<^verbatim>\<open>strings.IndexFunc(s, f)\<close>: the index of the first rune of \<open>s\<close> that satisfies \<open>f\<close>,
  or \<open>-1\<close>. Go decodes \<open>s\<close> as UTF-8; a byte below \<open>0x80\<close> is the rune of that value, and
  every rune decoded from bytes from \<open>0x80\<close> on is \<open>0x80\<close> or more (\<open>U+FFFD\<close> for an invalid
  sequence). The two predicates passed here reject every rune from \<open>0x80\<close> on, so the
  first rejected rune starts at the first rejected byte, and the search is modelled
  byte by byte.
\<close>

fun IndexFunc_from :: "int \<Rightarrow> string \<Rightarrow> (int \<Rightarrow> bool) \<Rightarrow> int" where
  "IndexFunc_from i [] f = - 1"
| "IndexFunc_from i (b # bs) f = (if f (rune b) then i else IndexFunc_from (i + 1) bs f)"

definition IndexFunc :: "string \<Rightarrow> (int \<Rightarrow> bool) \<Rightarrow> int" where
  "IndexFunc s f = IndexFunc_from 0 s f"

fun IndexByte_from :: "int \<Rightarrow> string \<Rightarrow> char \<Rightarrow> int" where
  "IndexByte_from i [] c = - 1"
| "IndexByte_from i (b # bs) c = (if b = c then i else IndexByte_from (i + 1) bs c)"

definition IndexByte :: "string \<Rightarrow> char \<Rightarrow> int" where
  "IndexByte s c = IndexByte_from 0 s c"

definition ValidIniSection :: "string \<Rightarrow> bool" where
  "ValidIniSection s = (length s > 0 \<and> - 1 = IndexFunc s (\<lambda>r. \<not> isKeyChar r))"

fun ValidIniSubsection :: "string \<Rightarrow> bool" where
  "ValidIniSubsection [] = True"
| "ValidIniSubsection (b # bs) =
     (if b = CHR 0x0A \<or> b = CHR 0x00 then False else ValidIniSubsection bs)"

definition ValidIniKey :: "string \<Rightarrow> bool" where
  "ValidIniKey s = (s \<noteq> [] \<and> isAlpha (rune (hd s)) \<and> - 1 = IndexFunc s (\<lambda>r. \<not> isKeyChar r))"

section \<open>Sections and qualified keys\<close>

record IniSection =
  Section :: string
  Subsection :: "string option"

text \<open>A \<^verbatim>\<open>*IniSection\<close> is an \<^typ>\<open>IniSection option\<close>; \<open>None\<close> is the nil pointer.\<close>

datatype panic =
    IllegalSubsectionChar
  | IllegalSection string
  | IllegalKey string
  | NilDereference
  | IndexOutOfRange

definition IniSection_Valid :: "IniSection option \<Rightarrow> bool" where
  "IniSection_Valid s = (case s of
       None \<Rightarrow> True
     | Some sc \<Rightarrow>
         if \<not> ValidIniSection (Section sc) then False
         else (case Subsection sc of None \<Rightarrow> True | Some sub \<Rightarrow> ValidIniSubsection sub))"

fun escape_subsection :: "string \<Rightarrow> panic + string" where
  "escape_subsection [] = Inr []"
| "escape_subsection (b # bs) =
     (if b = CHR 0x0A \<or> b = CHR 0x00 then Inl IllegalSubsectionChar
      else (case escape_subsection bs of
              Inl p \<Rightarrow> Inl p
            | Inr r \<Rightarrow> Inr ((if b = CHR 0x5C \<or> b = CHR 0x22 then [CHR 0x5C, b] else [b]) @ r)))"

definition IniSection_String :: "IniSection option \<Rightarrow> panic + string" where
  "IniSection_String s = (case s of
       None \<Rightarrow> Inr []
     | Some sc \<Rightarrow>
         (case Subsection sc of
            Some sub \<Rightarrow>
              (case escape_subsection sub of
                 Inl p \<Rightarrow> Inl p
               | Inr body \<Rightarrow> Inr (''['' @ Section sc @ [CHR '' '', CHR 0x22] @ body @ [CHR 0x22, CHR '']'']))
          | None \<Rightarrow> Inr (''['' @ Section sc @ '']'')))"

definition IniSection_Eq :: "IniSection option \<Rightarrow> IniSection option \<Rightarrow> bool" where
  "IniSection_Eq s s2 = (case (s, s2) of
       (None, None) \<Rightarrow> True
     | (None, Some _) \<Rightarrow> False
     | (Some _, None) \<Rightarrow> False
     | (Some a, Some b) \<Rightarrow>
         if Section a \<noteq> Section b then False
         else (case (Subsection a, Subsection b) of
                 (None, None) \<Rightarrow> True
               | (None, Some _) \<Rightarrow> False
               | (Some _, None) \<Rightarrow> False
               | (Some x, Some y) \<Rightarrow> x = y))"

text \<open>
  \<^verbatim>\<open>IniQKey\<close> panics on an invalid section or key. The panic value is kept as a
  constructor holding the offending text instead of the formatted message.
\<close>

definition IniQKey :: "IniSection option \<Rightarrow> string \<Rightarrow> panic + string" where
  "IniQKey s key =
     (if \<not> IniSection_Valid s then
        (case IniSection_String s of Inl p \<Rightarrow> Inl p | Inr r \<Rightarrow> Inl (IllegalSection r))
      else if \<not> ValidIniKey key then Inl (IllegalKey key)
      else (case s of
              None \<Rightarrow> Inr key
            | Some sc \<Rightarrow>
                (case Subsection sc of
                   None \<Rightarrow> Inr (Section sc @ ''.'' @ key)
                 | Some sub \<Rightarrow> Inr (Section sc @ ''.'' @ sub @ ''.'' @ key))))"

section \<open>Parse events and errors\<close>

record IniRange =
  StartIndex :: nat
  EndIndex :: nat
  PrevEndIndex :: nat
  Input :: string

record IniItem =
  iiSection :: "IniSection option"
  Key :: string
  Val :: "string option"
  iiRange :: IniRange

record IniSecStart =
  ssSection :: IniSection
  ssRange :: IniRange

text \<open>
  What a sink callback returns: \<^verbatim>\<open>BadKey\<close> is the one error type the parser tells
  apart; every other error is kept by its \<^verbatim>\<open>Error()\<close> text.
\<close>

datatype sink_error = BadKey string | OtherError string

fun sink_error_text :: "sink_error \<Rightarrow> string" where
  "sink_error_text (BadKey m) = m"
| "sink_error_text (OtherError m) = m"

record ParseError =
  File :: string
  Lineno :: nat
  Colno :: nat
  Msg :: string

section \<open>Cursor\<close>

record position =
  index :: nat
  lineno :: nat
  colno :: nat

text \<open>
  The parser state. The three callbacks of the Go struct are fixed once the parser is
  made, so they are passed beside the state (a record \<open>IniSink\<close> below); the state of the
  sink they are bound to is the field \<open>sink\<close>. Indices are Go \<^verbatim>\<open>int\<close>s that stay between
  \<open>0\<close> and the input's length, hence \<^typ>\<open>nat\<close>.
\<close>

record 's iniParse =
  pos :: position
  input :: string
  filename :: string
  sec :: "IniSection option"
  prevEnd :: nat
  sink :: 's

text \<open>
  A parser function returns a value and the new state, or throws a \<^verbatim>\<open>ParseError\<close>
  (a Go panic that \<^verbatim>\<open>do1\<close> recovers; the state reached is kept), or panics with another
  value, which \<^verbatim>\<open>do1\<close> panics again.
\<close>

datatype ('a, 's) outcome =
    Ret 'a "'s iniParse"
  | Throw ParseError "'s iniParse"
  | Crash panic

definition throwAt :: "'s iniParse \<Rightarrow> position \<Rightarrow> string \<Rightarrow> ('a, 's) outcome" where
  "throwAt l p msg =
     Throw \<lparr>File = filename l, Lineno = lineno p + 1, Colno = colno p + 1, Msg = msg\<rparr> l"

definition throw :: "'s iniParse \<Rightarrow> string \<Rightarrow> ('a, 's) outcome" where
  "throw l msg = throwAt l (pos l) msg"

definition peek :: "'s iniParse \<Rightarrow> int" where
  "peek l = (if index (pos l) \<ge> length (input l) then eofRune
             else rune (input l ! index (pos l)))"

text \<open>\<^verbatim>\<open>at\<close> reads \<^verbatim>\<open>l.input[n]\<close> also when \<open>n\<close> is the input's length: a runtime panic.\<close>

definition at_off :: "int \<Rightarrow> 's iniParse \<Rightarrow> panic + int" where
  "at_off n l =
     (let m = n + int (index (pos l)) in
      if m > int (length (input l)) \<or> m < 0 then Inr eofRune
      else if m = int (length (input l)) then Inl IndexOutOfRange
      else Inr (rune (input l ! nat m)))"

definition remaining :: "'s iniParse \<Rightarrow> nat" where
  "remaining l = length (input l) - index (pos l)"

text \<open>One round of the loop of \<^verbatim>\<open>skip\<close>: the byte at the cursor moves line and column.\<close>

definition skip_byte :: "position \<Rightarrow> char \<Rightarrow> position" where
  "skip_byte p b =
     (if b = CHR 0x0A then p\<lparr>index := index p + 1, lineno := lineno p + 1, colno := 0\<rparr>
      else if b = CHR 0x09 then
        p\<lparr>index := index p + 1, colno := colno p + (8 - colno p mod tabwidth)\<rparr>
      else p\<lparr>index := index p + 1, colno := colno p + 1\<rparr>)"

text \<open>Every caller passes a count that is not negative, so the count is a \<^typ>\<open>nat\<close>.\<close>

definition skip :: "nat \<Rightarrow> 's iniParse \<Rightarrow> 's iniParse" where
  "skip n l =
     (let n' = (if n > remaining l then remaining l else n) in
      l\<lparr>pos := foldl skip_byte (pos l) (take n' (drop (index (pos l)) (input l)))\<rparr>)"

definition takeN :: "nat \<Rightarrow> 's iniParse \<Rightarrow> string \<times> 's iniParse" where
  "takeN n l =
     (let i = index (pos l); l' = skip n l in
      (take (index (pos l') - i) (drop i (input l)), l'))"

definition match :: "string \<Rightarrow> 's iniParse \<Rightarrow> bool \<times> 's iniParse" where
  "match lit l =
     (let n = length lit in
      if remaining l \<ge> n \<and> take n (drop (index (pos l)) (input l)) = lit
      then (True, skip n l) else (False, l))"

text \<open>
  \<^verbatim>\<open>skipWhile\<close>: \<open>i\<close> runs from the cursor over the bytes that satisfy \<open>fn\<close>; their number
  is the length of the longest such prefix of the rest of the input.
\<close>

definition skipWhile :: "(int \<Rightarrow> bool) \<Rightarrow> 's iniParse \<Rightarrow> bool \<times> 's iniParse" where
  "skipWhile fn l =
     (let k = length (takeWhile (\<lambda>b. fn (rune b)) (drop (index (pos l)) (input l))) in
      if k > 0 then (True, skip k l) else (False, l))"

definition skipTo :: "char \<Rightarrow> 's iniParse \<Rightarrow> bool \<times> 's iniParse" where
  "skipTo c l =
     (let i = IndexByte (drop (index (pos l)) (input l)) c in
      if i \<ge> 0 then (True, skip (nat i) l) else (False, skip (remaining l) l))"

definition takeWhileP :: "(int \<Rightarrow> bool) \<Rightarrow> 's iniParse \<Rightarrow> string \<times> 's iniParse" where
  "takeWhileP fn l =
     (let i = index (pos l); l' = snd (skipWhile fn l) in
      (take (index (pos l') - i) (drop i (input l)), l'))"

definition skipWS :: "'s iniParse \<Rightarrow> bool \<times> 's iniParse" where
  "skipWS l = skipWhile (\<lambda>r. r = rune CHR '' '' \<or> r = rune CHR 0x09 \<or> r = rune CHR 0x0D) l"

definition getKey :: "'s iniParse \<Rightarrow> string \<times> 's iniParse" where
  "getKey l = takeWhileP isKeyChar l"

section \<open>Grammar\<close>

text \<open>
  The loop of \<^verbatim>\<open>getSubsection\<close>, from index \<open>i\<close> with \<open>ret\<close> written so far: \<open>None\<close> is its
  \<^verbatim>\<open>return nil\<close>, \<open>Some (i, ret)\<close> the index and text it leaves the loop with.
\<close>

function subsection_loop :: "string \<Rightarrow> nat \<Rightarrow> string \<Rightarrow> (nat \<times> string) option" where
  "subsection_loop inp i ret =
     (if i + 1 < length inp then
        (let c = inp ! i in
         if c = CHR 0x22 then Some (i, ret)
         else if c = CHR 0x00 \<or> c = CHR 0x0A then None
         else if c = CHR 0x5C then
           (let nc = inp ! (i + 1) in
            subsection_loop inp (i + 2) (if nc = CHR 0x5C \<or> nc = CHR 0x22 then ret @ [nc] else ret))
         else subsection_loop inp (i + 1) (ret @ [c]))
      else Some (i, ret))"
  by pat_completeness auto
termination
  by (relation "measure (\<lambda>(inp, i, ret). length inp - i)") auto

text \<open>After the loop \<^verbatim>\<open>l.input[i]\<close> is read with no bound check.\<close>

definition getSubsection :: "'s iniParse \<Rightarrow> (string option, 's) outcome" where
  "getSubsection l =
     (if remaining l < 2 \<or> peek l \<noteq> rune CHR 0x22 then Ret None l
      else (case subsection_loop (input l) (index (pos l) + 1) [] of
              None \<Rightarrow> Ret None l
            | Some (i, ret) \<Rightarrow>
                if i \<ge> length (input l) then Crash IndexOutOfRange
                else if input l ! i \<noteq> CHR 0x22 then Ret None l
                else Ret (Some ret) (skip (i + 1 - index (pos l)) l)))"

definition getSection :: "'s iniParse \<Rightarrow> (IniSection option, 's) outcome" where
  "getSection l =
     (case match ''['' l of
        (False, l0) \<Rightarrow> Ret None l0
      | (True, l1) \<Rightarrow>
          (case getKey l1 of (name, l2) \<Rightarrow>
             if length name = 0 then throw l2 (''expected section name after '' @ [CHR 0x27] @ ''['' @ [CHR 0x27])
             else (case match '']'' l2 of
                (True, l3) \<Rightarrow> Ret (Some \<lparr>Section = name, Subsection = None\<rparr>) l3
              | (False, l3) \<Rightarrow>
                  (case skipWS l3 of
                     (False, l4) \<Rightarrow>
                       throw l4 (''expected '' @ [CHR 0x27] @ '']'' @ [CHR 0x27] @ '' or space followed by quoted subsection'')
                   | (True, l4) \<Rightarrow>
                       (case getSubsection l4 of
                          Crash p \<Rightarrow> Crash p
                        | Throw e l5 \<Rightarrow> Throw e l5
                        | Ret None l5 \<Rightarrow> throw l5 ''expected quoted subsection after space''
                        | Ret (Some sub) l5 \<Rightarrow>
                            (case match '']'' l5 of
                               (False, l6) \<Rightarrow> throw l6 (''expected '' @ [CHR 0x27] @ '']'' @ [CHR 0x27])
                             | (True, l6) \<Rightarrow> Ret (Some \<lparr>Section = name, Subsection = Some sub\<rparr>) l6))))))"

section \<open>Values\<close>

definition needQuotes :: "string \<Rightarrow> bool" where
  "needQuotes val =
     (if val = [] then False
      else if hd val = CHR '' '' \<or> hd val = CHR 0x09 then True
      else list_ex (\<lambda>c. (of_char c :: nat) < of_char CHR '' '' \<or> (of_char c :: nat) \<ge> 0x7f
                          \<or> IndexByte [CHR 0x22, CHR ''#'', CHR '';'', CHR 0x5C] c \<noteq> - 1) val)"

fun escape_bytes :: "string \<Rightarrow> string" where
  "escape_bytes [] = []"
| "escape_bytes (b # bs) =
     (if b = CHR 0x22 \<or> b = CHR 0x5C then [CHR 0x5C, b]
      else if b = CHR 0x08 then [CHR 0x5C, CHR ''b'']
      else if b = CHR 0x0A then [CHR 0x5C, CHR ''n'']
      else if b = CHR 0x09 then [CHR 0x5C, CHR ''t'']
      else [b]) @ escape_bytes bs"

definition EscapeIniValue :: "string \<Rightarrow> string" where
  "EscapeIniValue val =
     (if \<not> needQuotes val then val
      else [CHR 0x22] @ escape_bytes val @ [CHR 0x22])"

text \<open>
  The verb \<^verbatim>\<open>%c\<close> writes a rune in UTF-8. The rune written by \<^verbatim>\<open>getValue\<close> comes from
  one input byte, so it is below \<open>0x100\<close>: one byte below \<open>0x80\<close>, two bytes from there.
\<close>

definition utf8_rune :: "int \<Rightarrow> string" where
  "utf8_rune c =
     (if c < 0x80 then [char_of c]
      else [char_of (0xC0 OR drop_bit 6 c), char_of (0x80 OR (c AND 0x3F))])"

lemma index_foldl_skip_byte:
  "index (foldl skip_byte p bs) = index p + length bs"
  by (induction bs arbitrary: p) (simp_all add: skip_byte_def)

lemma index_skip:
  "index (pos (skip n l)) = index (pos l) + min n (remaining l)"
  by (simp add: skip_def Let_def index_foldl_skip_byte remaining_def min_def)

lemma input_skip [simp]: "input (skip n l) = input l"
  by (simp add: skip_def Let_def)

lemma peek_not_eof:
  "peek l \<noteq> eofRune \<Longrightarrow> index (pos l) < length (input l)"
  by (simp add: peek_def split: if_splits)

lemma rune_not_eof [simp]: "rune b \<noteq> eofRune"
proof -
  have "(0::int) \<le> of_nat (of_char b)" by simp
  then have "(0::int) \<le> rune b" by (simp only: of_nat_of_char)
  then show ?thesis by (simp add: eofRune_def)
qed

lemma peek_eof_iff:
  "peek l = eofRune \<longleftrightarrow> length (input l) \<le> index (pos l)"
  by (simp add: peek_def)

lemma index_skip1:
  "index (pos l) < length (input l) \<Longrightarrow> index (pos (skip 1 l)) = index (pos l) + 1"
  by (simp add: index_skip remaining_def)

lemma IndexByte_from_eq:
  "IndexByte_from i s c =
     (if c \<in> set s then i + int (length (takeWhile (\<lambda>b. b \<noteq> c) s)) else - 1)"
  by (induction s arbitrary: i) auto

lemma IndexByte_eq:
  "IndexByte s c = (if c \<in> set s then int (length (takeWhile (\<lambda>b. b \<noteq> c) s)) else - 1)"
  by (simp add: IndexByte_def IndexByte_from_eq)

lemma input_skipTo [simp]: "input (snd (skipTo c l)) = input l"
  by (simp add: skipTo_def Let_def)

lemma index_skipTo:
  "index (pos (snd (skipTo c l))) =
     (if c \<in> set (drop (index (pos l)) (input l))
      then index (pos l) + length (takeWhile (\<lambda>b. b \<noteq> c) (drop (index (pos l)) (input l)))
      else max (index (pos l)) (length (input l)))"
proof -
  have "length (takeWhile (\<lambda>b. b \<noteq> c) (drop (index (pos l)) (input l))) \<le> remaining l"
    using length_takeWhile_le [of "\<lambda>b. b \<noteq> c" "drop (index (pos l)) (input l)"]
    by (simp add: remaining_def)
  then show ?thesis
    by (auto simp add: skipTo_def Let_def IndexByte_eq index_skip remaining_def)
qed

lemma length_takeWhile_less:
  "\<exists>x \<in> set xs. \<not> P x \<Longrightarrow> length (takeWhile P xs) < length xs"
  by (induction xs) auto

lemma skipTo_skip1_advance:
  assumes "index (pos l) < length (input l)"
  shows "index (pos l) < index (pos (skip 1 (snd (skipTo c l))))"
proof (cases "c \<in> set (drop (index (pos l)) (input l))")
  case True
  let ?rest = "drop (index (pos l)) (input l)"
  let ?k = "length (takeWhile (\<lambda>b. b \<noteq> c) ?rest)"
  have "?k < length ?rest"
    using True by (intro length_takeWhile_less) auto
  then have "index (pos (snd (skipTo c l))) < length (input l)"
    using True by (simp add: index_skipTo)
  then have "index (pos (skip 1 (snd (skipTo c l)))) = index (pos (snd (skipTo c l))) + 1"
    using index_skip1 [of "snd (skipTo c l)"] by simp
  then show ?thesis using True by (simp add: index_skipTo)
next
  case False
  then show ?thesis using assms by (simp add: index_skip index_skipTo)
qed

lemma remaining_skip1:
  "peek l \<noteq> - 1 \<Longrightarrow> remaining (skip (Suc 0) l) < remaining l"
  using peek_not_eof [of l] by (auto simp add: remaining_def index_skip eofRune_def)

lemma remaining_skip2:
  "peek l \<noteq> - 1 \<Longrightarrow> remaining (skip (Suc 0) (skip (Suc 0) l)) < remaining l"
  using peek_not_eof [of l] by (auto simp add: remaining_def index_skip eofRune_def)

lemma remaining_skipTo:
  "peek l \<noteq> - 1 \<Longrightarrow> remaining (skip (Suc 0) (snd (skipTo c l))) < remaining l"
  using peek_not_eof [of l] skipTo_skip1_advance [of l c]
  by (auto simp add: remaining_def eofRune_def)

text \<open>
  The test \<^verbatim>\<open>c == '\n' || c == eofRune || (c == '\r' && l.at(1) == '\n')\<close>; the call of
  \<^verbatim>\<open>at\<close> can panic.
\<close>

definition at_line_end :: "int \<Rightarrow> 's iniParse \<Rightarrow> panic + bool" where
  "at_line_end c l =
     (if c = rune CHR 0x0A \<or> c = eofRune then Inr True
      else if c = rune CHR 0x0D then
        (case at_off 1 l of Inl p \<Rightarrow> Inl p | Inr nc \<Rightarrow> Inr (nc = rune CHR 0x0A))
      else Inr False)"

lemma at_line_end_False:
  "at_line_end c l = Inr False \<Longrightarrow> c \<noteq> - 1"
  by (auto simp add: at_line_end_def eofRune_def split: if_splits sum.splits)

text \<open>
  The loop of \<^verbatim>\<open>getValue\<close> with its three variables \<open>escape\<close>, \<open>inquote\<close> and \<open>ret\<close>.
  The round ends with \<^verbatim>\<open>l.skip(1)\<close> unless it returns or throws.
\<close>

function getValue_loop :: "bool \<Rightarrow> bool \<Rightarrow> string \<Rightarrow> 's iniParse \<Rightarrow> (string, 's) outcome" where
  "getValue_loop escape inquote ret l =
     (let c = peek l in
      if escape then
        (if c = rune CHR 0x22 \<or> c = rune CHR 0x5C then
           getValue_loop False inquote (ret @ [char_of c]) (skip 1 l)
         else if c = rune CHR ''n'' then getValue_loop False inquote (ret @ [CHR 0x0A]) (skip 1 l)
         else if c = rune CHR ''t'' then getValue_loop False inquote (ret @ [CHR 0x09]) (skip 1 l)
         else if c = rune CHR ''b'' then getValue_loop False inquote (ret @ [CHR 0x08]) (skip 1 l)
         else if c = rune CHR 0x0A then getValue_loop False inquote ret (skip 1 l)
         else if c = rune CHR 0x0D then
           (case at_off 1 l of
              Inl p \<Rightarrow> Crash p
            | Inr nc \<Rightarrow>
                if nc = rune CHR 0x0A then getValue_loop False inquote ret (skip 1 (skip 1 l))
                else throw l (''invalid escape sequence '' @ [CHR 0x5C] @ utf8_rune c))
         else if c = eofRune then throw l ''incomplete escape sequence at EOF''
         else throw l (''invalid escape sequence '' @ [CHR 0x5C] @ utf8_rune c))
      else if c = rune CHR 0x5C then getValue_loop True inquote ret (skip 1 l)
      else if c = rune CHR 0x22 then getValue_loop False (\<not> inquote) ret (skip 1 l)
      else
        (case at_line_end c l of
           Inl p \<Rightarrow> Crash p
         | Inr ended \<Rightarrow>
             if ended then
               (let l1 = (if c = rune CHR 0x0D then skip 1 l else l) in
                if inquote then throw l1 ''missing close quotes'' else Ret ret (skip 1 l1))
             else if \<not> inquote \<and> (c = rune CHR ''#'' \<or> c = rune CHR '';'') then
               getValue_loop False inquote ret (skip 1 (snd (skipTo (CHR 0x0A) l)))
             else getValue_loop False inquote (ret @ [char_of c]) (skip 1 l)))"
  by pat_completeness auto
termination
proof (relation "measure (\<lambda>(escape, inquote, ret, l). remaining l)")
  show "wf (measure (\<lambda>(escape, inquote, ret, l). remaining l))"
    by simp
qed (auto simp add: remaining_skip1 remaining_skip2 remaining_skipTo dest!: at_line_end_False)

definition getValue :: "'s iniParse \<Rightarrow> (string, 's) outcome" where
  "getValue l = getValue_loop False False [] l"

section \<open>Statements\<close>

text \<open>
  The callbacks of a sink, each on the sink's state \<open>'s\<close>. A callback returns its error
  (or none) and the new sink state, or panics. \<^verbatim>\<open>newParser\<close> puts a callback that does
  nothing where the sink has no \<^verbatim>\<open>Section\<close> or \<^verbatim>\<open>Done\<close> method.
\<close>

datatype 's hook_result = HookReturn "sink_error option" 's | HookPanic panic

record 's IniSink =
  hValue :: "IniItem \<Rightarrow> 's \<Rightarrow> 's hook_result"
  hSection :: "IniSecStart \<Rightarrow> 's \<Rightarrow> 's hook_result"
  hdone :: "IniRange \<Rightarrow> 's \<Rightarrow> panic + 's"

definition no_Section :: "IniSecStart \<Rightarrow> 's \<Rightarrow> 's hook_result" where
  "no_Section ss s = HookReturn None s"

definition no_done :: "IniRange \<Rightarrow> 's \<Rightarrow> panic + 's" where
  "no_done r s = Inr s"

definition getRange :: "nat \<Rightarrow> 's iniParse \<Rightarrow> IniRange \<times> 's iniParse" where
  "getRange startIdx l =
     (let prev = prevEnd l; l' = l\<lparr>prevEnd := index (pos l)\<rparr> in
      (\<lparr>StartIndex = startIdx, EndIndex = index (pos l'), PrevEndIndex = prev, Input = input l'\<rparr>, l'))"

text \<open>
  The call \<^verbatim>\<open>l.Value(IniItem{...})\<close> that ends the key branch of \<^verbatim>\<open>do1\<close>, with the
  handling of its error.
\<close>

definition call_Value ::
  "'s IniSink \<Rightarrow> nat \<Rightarrow> position \<Rightarrow> position \<Rightarrow> string \<Rightarrow> string option \<Rightarrow> 's iniParse
     \<Rightarrow> (unit, 's) outcome" where
  "call_Value H startindex keypos valpos k v l =
     (let section = sec l in
      case getRange startindex l of (r, l1) \<Rightarrow>
        (case hValue H \<lparr>iiSection = section, Key = k, Val = v, iiRange = r\<rparr> (sink l1) of
           HookPanic p \<Rightarrow> Crash p
         | HookReturn None s \<Rightarrow> Ret () (l1\<lparr>sink := s\<rparr>)
         | HookReturn (Some (BadKey ke)) s \<Rightarrow> throwAt (l1\<lparr>sink := s\<rparr>) keypos ke
         | HookReturn (Some (OtherError m)) s \<Rightarrow> throwAt (l1\<lparr>sink := s\<rparr>) valpos m))"

text \<open>The body of \<^verbatim>\<open>do1\<close>, before its deferred \<^verbatim>\<open>recover\<close>.\<close>

definition do1_body :: "'s IniSink \<Rightarrow> 's iniParse \<Rightarrow> (unit, 's) outcome" where
  "do1_body H l =
     (let startindex = index (pos l);
          l1 = snd (skipWS l);
          keypos = pos l1 in
      case getSection l1 of
        Crash p \<Rightarrow> Crash p
      | Throw e l2 \<Rightarrow> Throw e l2
      | Ret (Some sc) l2 \<Rightarrow>
          (let l3 = snd (skipWS l2);
               l4 = snd (match [CHR 0x0A] l3);
               l5 = l4\<lparr>sec := Some sc\<rparr> in
           case getRange startindex l5 of (r, l6) \<Rightarrow>
             (case hSection H \<lparr>ssSection = sc, ssRange = r\<rparr> (sink l6) of
                HookPanic p \<Rightarrow> Crash p
              | HookReturn None s \<Rightarrow> Ret () (l6\<lparr>sink := s\<rparr>)
              | HookReturn (Some err) s \<Rightarrow> throwAt (l6\<lparr>sink := s\<rparr>) keypos (sink_error_text err)))
      | Ret None l2 \<Rightarrow>
          if isAlpha (peek l2) then
            (case getKey l2 of (k, l3) \<Rightarrow>
               (let l4 = snd (skipWS l3) in
                case match ''='' l4 of
                  (False, l5) \<Rightarrow>
                    (let c = peek l5 in
                     if c \<noteq> rune CHR 0x0A \<and> c \<noteq> rune CHR ''#'' \<and> c \<noteq> rune CHR '';'' \<and> c \<noteq> eofRune
                     then throw l5 (''Expected '' @ [CHR 0x27] @ ''='' @ [CHR 0x27] @ '' after '' @ k)
                     else
                       (let valpos = pos l5 in
                        case skipTo (CHR 0x0A) l5 of (found, l6) \<Rightarrow>
                          call_Value H startindex keypos valpos k None
                            (if found then skip 1 l6 else l6)))
                | (True, l5) \<Rightarrow>
                    (let l6 = snd (skipWS l5);
                         valpos = pos l6 in
                     case getValue l6 of
                       Crash p \<Rightarrow> Crash p
                     | Throw e l7 \<Rightarrow> Throw e l7
                     | Ret val l7 \<Rightarrow> call_Value H startindex keypos valpos k (Some val) l7)))
          else
            (let c = peek l2 in
             if c = rune CHR ''#'' \<or> c = rune CHR '';'' \<or> c = rune CHR 0x0A
             then Ret () (skip 1 (snd (skipTo (CHR 0x0A) l2)))
             else throw l2 ''Expected section or key''))"

text \<open>
  \<^verbatim>\<open>do1\<close>: the deferred function turns a thrown \<^verbatim>\<open>ParseError\<close> into the result and
  moves the cursor to the next newline; any other panic goes on.
\<close>

definition do1 :: "'s IniSink \<Rightarrow> 's iniParse \<Rightarrow> panic + (ParseError option \<times> 's iniParse)" where
  "do1 H l =
     (case do1_body H l of
        Ret u l' \<Rightarrow> Inr (None, l')
      | Throw pe l' \<Rightarrow> Inr (Some pe, snd (skipTo (CHR 0x0A) l'))
      | Crash p \<Rightarrow> Inl p)"

section \<open>How one statement moves the parser\<close>

declare getValue_loop.simps [simp del]
declare subsection_loop.simps [simp del]

definition moved :: "'s iniParse \<Rightarrow> 's iniParse \<Rightarrow> bool" where
  "moved l l' \<longleftrightarrow>
     (\<exists>p. l' = l\<lparr>pos := p\<rparr> \<and> index (pos l) \<le> index p
          \<and> index p \<le> max (index (pos l)) (length (input l)))"

lemma moved_refl [simp]: "moved l l"
  by (auto simp add: moved_def intro: exI [of _ "pos l"])

lemma moved_trans: "moved a b \<Longrightarrow> moved b c \<Longrightarrow> moved a c"
  by (auto simp add: moved_def)

lemma moved_skip [simp]: "moved l (skip n l)"
  unfolding moved_def
  by (rule exI [of _ "pos (skip n l)"]) (auto simp add: skip_def Let_def index_foldl_skip_byte remaining_def)

lemma moved_skip2 [simp]: "moved l (skip n (skip m l))"
  by (rule moved_trans [OF moved_skip moved_skip])

lemma moved_match: "moved l (snd (match lit l))"
  by (simp add: match_def Let_def)

lemma moved_skipWhile: "moved l (snd (skipWhile fn l))"
  by (simp add: skipWhile_def Let_def)

lemma moved_skipTo: "moved l (snd (skipTo c l))"
  by (simp add: skipTo_def Let_def)

lemma moved_skipWS: "moved l (snd (skipWS l))"
  by (simp add: skipWS_def moved_skipWhile)

lemma moved_getKey: "moved l (snd (getKey l))"
  by (simp add: getKey_def takeWhileP_def Let_def moved_skipWhile)

lemma moved_getSubsection:
  "getSubsection l = Ret r l' \<Longrightarrow> moved l l'"
  by (auto simp add: getSubsection_def split: if_splits option.splits)

lemma getSubsection_no_Throw: "getSubsection l \<noteq> Throw e l'"
  by (auto simp add: getSubsection_def split: if_splits option.splits)

lemma matchD: "match lit l = (b, l') \<Longrightarrow> moved l l'"
  using moved_match [of l lit] by simp

lemma getKeyD: "getKey l = (k, l') \<Longrightarrow> moved l l'"
  using moved_getKey [of l] by simp

lemma skipWSD: "skipWS l = (b, l') \<Longrightarrow> moved l l'"
  using moved_skipWS [of l] by simp

lemma skipToD: "skipTo c l = (b, l') \<Longrightarrow> moved l l'"
  using moved_skipTo [of l c] by simp

lemma moved_getSection:
  assumes "getSection l = Ret r l' \<or> getSection l = Throw e l'"
  shows "moved l l'"
  using assms unfolding getSection_def throw_def throwAt_def
  by (auto split: prod.splits bool.splits if_splits outcome.splits option.splits
       dest!: matchD getKeyD skipWSD moved_getSubsection simp add: getSubsection_no_Throw)
     (blast intro: moved_trans)+


definition advanced :: "'s iniParse \<Rightarrow> 's iniParse \<Rightarrow> bool" where
  "advanced l l' \<longleftrightarrow>
     input l' = input l \<and> filename l' = filename l \<and> index (pos l) \<le> index (pos l')
     \<and> index (pos l') \<le> max (index (pos l)) (length (input l))"

definition hook_called :: "'s IniSink \<Rightarrow> 's iniParse \<Rightarrow> 's iniParse \<Rightarrow> bool" where
  "hook_called H l l' \<longleftrightarrow>
     index (pos l) < prevEnd l' \<and> prevEnd l' \<le> index (pos l') \<and>
     (let r = \<lparr>StartIndex = index (pos l), EndIndex = prevEnd l', PrevEndIndex = prevEnd l,
                Input = input l\<rparr> in
      (\<exists>sc eo. hSection H \<lparr>ssSection = sc, ssRange = r\<rparr> (sink l) = HookReturn eo (sink l')) \<or>
      (\<exists>sc k v eo. hValue H \<lparr>iiSection = sc, Key = k, Val = v, iiRange = r\<rparr> (sink l)
                     = HookReturn eo (sink l')))"

definition stepped :: "'s IniSink \<Rightarrow> 's iniParse \<Rightarrow> 's iniParse \<Rightarrow> bool" where
  "stepped H l l' \<longleftrightarrow>
     advanced l l' \<and> ((prevEnd l' = prevEnd l \<and> sink l' = sink l) \<or> hook_called H l l')"

definition post ::
  "('a \<Rightarrow> 's iniParse \<Rightarrow> bool) \<Rightarrow> ('s iniParse \<Rightarrow> bool) \<Rightarrow> ('a, 's) outcome \<Rightarrow> bool" where
  "post R T out = (case out of Ret r l' \<Rightarrow> R r l' | Throw e l' \<Rightarrow> T l' | Crash p \<Rightarrow> True)"

lemma post_simps [simp]:
  "post R T (Ret r l') = R r l'"
  "post R T (Throw e l') = T l'"
  "post R T (Crash p) = True"
  "post R T (throw l' msg) = T l'"
  "post R T (throwAt l' p' msg) = T l'"
  by (simp_all add: post_def throw_def throwAt_def)

lemma post_if:
  "(c \<Longrightarrow> post R T a) \<Longrightarrow> (\<not> c \<Longrightarrow> post R T b) \<Longrightarrow> post R T (if c then a else b)"
  by simp

lemma post_prod:
  "(\<And>a b. p = (a, b) \<Longrightarrow> post R T (f a b)) \<Longrightarrow> post R T (case p of (a, b) \<Rightarrow> f a b)"
  by (cases p) simp

lemma post_bool:
  "(b \<Longrightarrow> post R T x) \<Longrightarrow> (\<not> b \<Longrightarrow> post R T y) \<Longrightarrow> post R T (case b of True \<Rightarrow> x | False \<Rightarrow> y)"
  by (cases b) simp_all

lemma post_option:
  "(x = None \<Longrightarrow> post R T a) \<Longrightarrow> (\<And>y. x = Some y \<Longrightarrow> post R T (f y))
     \<Longrightarrow> post R T (case x of None \<Rightarrow> a | Some y \<Rightarrow> f y)"
  by (cases x) simp_all

lemma post_outcome:
  "(\<And>r l'. x = Ret r l' \<Longrightarrow> post R T (f r l')) \<Longrightarrow> (\<And>e l'. x = Throw e l' \<Longrightarrow> post R T (g e l'))
     \<Longrightarrow> (\<And>p. x = Crash p \<Longrightarrow> post R T (h p))
     \<Longrightarrow> post R T (case x of Ret r l' \<Rightarrow> f r l' | Throw e l' \<Rightarrow> g e l' | Crash p \<Rightarrow> h p)"
  by (cases x) simp_all

lemma post_hook:
  "(\<And>eo s. x = HookReturn eo s \<Longrightarrow> post R T (f eo s)) \<Longrightarrow> (\<And>p. x = HookPanic p \<Longrightarrow> post R T (h p))
     \<Longrightarrow> post R T (case x of HookReturn eo s \<Rightarrow> f eo s | HookPanic p \<Rightarrow> h p)"
  by (cases x) simp_all

lemma post_sum:
  "(\<And>x. s = Inl x \<Longrightarrow> post R T (f x)) \<Longrightarrow> (\<And>y. s = Inr y \<Longrightarrow> post R T (g y))
     \<Longrightarrow> post R T (case s of Inl x \<Rightarrow> f x | Inr y \<Rightarrow> g y)"
  by (cases s) simp_all

lemma post_sink_error:
  "(\<And>m. x = BadKey m \<Longrightarrow> post R T (f m)) \<Longrightarrow> (\<And>m. x = OtherError m \<Longrightarrow> post R T (g m))
     \<Longrightarrow> post R T (case x of BadKey m \<Rightarrow> f m | OtherError m \<Rightarrow> g m)"
  by (cases x) simp_all

lemmas post_intros = post_if post_prod post_bool post_option post_outcome post_hook post_sink_error

lemma post_moved_trans:
  "moved l l1 \<Longrightarrow> post (\<lambda>r. moved l1) (moved l1) out \<Longrightarrow> post (\<lambda>r. moved l) (moved l) out"
  by (auto simp add: post_def split: outcome.splits intro: moved_trans)

lemma getValue_loop_moved:
  "post (\<lambda>r. moved l) (moved l) (getValue_loop escape inquote ret l)"
proof (induction escape inquote ret l rule: getValue_loop.induct)
  case (1 escape inquote ret l)
  have s1: "moved l (skip 1 l)" by simp
  have s2: "moved l (skip 1 (skip 1 l))" by simp
  have s3: "moved l (skip 1 (snd (skipTo (CHR 0x0A) l)))"
    by (rule moved_trans [OF moved_skipTo moved_skip])
  note IH = "1.IH" [OF refl]
  show ?case
    apply (subst getValue_loop.simps)
    apply (simp only: Let_def)
    apply (intro post_if post_sum;
           (((rule post_moved_trans [OF s1] post_moved_trans [OF s2] post_moved_trans [OF s3]),
             (rule IH; assumption))
           | (auto simp add: s1 s3)))
    done
qed

lemma movedE:
  assumes "moved l l'"
  obtains p where "l' = l\<lparr>pos := p\<rparr>" "index (pos l) \<le> index p"
    "index p \<le> max (index (pos l)) (length (input l))"
  using assms unfolding moved_def by blast

lemma match_True:
  "match lit l = (True, l') \<Longrightarrow> moved l l' \<and> index (pos l') = index (pos l) + length lit"
  using moved_match [of l lit]
  by (auto simp add: match_def Let_def index_skip split: if_splits)

lemma match_False: "match lit l = (False, l') \<Longrightarrow> l' = l"
  by (auto simp add: match_def Let_def split: if_splits)

definition smoved :: "'s iniParse \<Rightarrow> 's iniParse \<Rightarrow> bool" where
  "smoved l l' \<longleftrightarrow> moved l l' \<and> index (pos l) < index (pos l')"

lemma moved_index: "moved l l' \<Longrightarrow> index (pos l) \<le> index (pos l')"
  by (auto simp add: moved_def)

lemma smoved_moved: "smoved a b \<Longrightarrow> moved b c \<Longrightarrow> smoved a c"
  using moved_index [of b c] by (auto simp add: smoved_def intro: moved_trans)

lemma moved_smoved: "moved a b \<Longrightarrow> smoved b c \<Longrightarrow> smoved a c"
  using moved_index [of a b] by (auto simp add: smoved_def intro: moved_trans)

lemma smoved_imp_moved: "smoved a b \<Longrightarrow> moved a b"
  by (simp add: smoved_def)

lemma match1_True: "match [c] l = (True, l') \<Longrightarrow> smoved l l'"
  using match_True [of "[c]" l l'] by (simp add: smoved_def)

lemma getSection_cases:
  "post (\<lambda>r l'. if r = None then l' = l else smoved l l') (\<lambda>l'. smoved l l') (getSection l)"
  unfolding getSection_def
  apply (intro post_intros; (simp add: getSubsection_no_Throw)?)
         apply ((drule match1_True, ((drule matchD getKeyD skipWSD moved_getSubsection)+)?,
                ((drule (1) smoved_moved)+)?, assumption)+)[7]
  apply (drule match_False, simp)
  done


lemma moved_stepped: "moved l l' \<Longrightarrow> stepped H l l'"
  by (erule movedE) (simp add: stepped_def advanced_def)

lemma section_leaf:
  assumes "moved l l4" and strict: "index (pos l) < index (pos l4)"
    and "getRange (index (pos l)) (l4\<lparr>sec := x\<rparr>) = (r, l6)"
    and "hSection H \<lparr>ssSection = sc, ssRange = r\<rparr> (sink l6) = HookReturn eo s"
  shows "stepped H l (l6\<lparr>sink := s\<rparr>) \<and> pos (l6\<lparr>sink := s\<rparr>) = pos l4"
  using assms(1)
proof (rule movedE)
  fix p
  assume p: "l4 = l\<lparr>pos := p\<rparr>" "index (pos l) \<le> index p"
    "index p \<le> max (index (pos l)) (length (input l))"
  have r: "r = \<lparr>StartIndex = index (pos l), EndIndex = index p, PrevEndIndex = prevEnd l,
                 Input = input l\<rparr>"
    and l6: "l6 = l\<lparr>pos := p, sec := x, prevEnd := index p\<rparr>"
    using assms(3) p(1) by (auto simp add: getRange_def Let_def)
  have "hSection H \<lparr>ssSection = sc, ssRange = r\<rparr> (sink l) = HookReturn eo s"
    using assms(4) l6 by simp
  then have "hook_called H l (l6\<lparr>sink := s\<rparr>)"
    unfolding hook_called_def Let_def using p(1) strict r l6 by auto
  then show ?thesis
    using p l6 by (simp add: stepped_def advanced_def)
qed

lemma call_Value_post:
  assumes "moved l l4" and strict: "index (pos l) < index (pos l4)"
  shows "post (\<lambda>u l'. stepped H l l' \<and> pos l' = pos l4) (\<lambda>l'. stepped H l l' \<and> pos l' = pos l4)
           (call_Value H (index (pos l)) kp vp k v l4)"
  using assms(1)
proof (rule movedE)
  fix p
  assume p: "l4 = l\<lparr>pos := p\<rparr>" "index (pos l) \<le> index p"
    "index p \<le> max (index (pos l)) (length (input l))"
  let ?r = "\<lparr>StartIndex = index (pos l), EndIndex = index p, PrevEndIndex = prevEnd l,
                 Input = input l\<rparr>"
  let ?l1 = "l\<lparr>pos := p, prevEnd := index p\<rparr>"
  have g: "getRange (index (pos l)) l4 = (?r, ?l1)"
    using p(1) by (simp add: getRange_def Let_def)
  have h: "hValue H \<lparr>iiSection = sec l, Key = k, Val = v, iiRange = ?r\<rparr> (sink l) = HookReturn eo s
      \<Longrightarrow> stepped H l (?l1\<lparr>sink := s\<rparr>) \<and> pos (?l1\<lparr>sink := s\<rparr>) = pos l4" for eo s
    unfolding stepped_def advanced_def hook_called_def Let_def using p strict by auto
  show ?thesis
    unfolding call_Value_def Let_def g prod.case
    apply (intro post_intros)
    using h p(1) by auto
qed

lemma isAlpha_eof [simp]: "\<not> isAlpha eofRune"
  by (simp add: isAlpha_def eofRune_def)

lemma isAlpha_isKeyChar: "isAlpha c \<Longrightarrow> isKeyChar c"
  by (simp add: isKeyChar_def)

lemma skipWhile_advance:
  assumes "index (pos l) < length (input l)" "fn (rune (input l ! index (pos l)))"
  shows "index (pos l) < index (pos (snd (skipWhile fn l)))"
proof -
  have "drop (index (pos l)) (input l) = input l ! index (pos l) # drop (Suc (index (pos l))) (input l)"
    using assms(1) by (simp add: Cons_nth_drop_Suc)
  then have "0 < length (takeWhile (\<lambda>b. fn (rune b)) (drop (index (pos l)) (input l)))"
    using assms(2) by simp
  moreover have "length (takeWhile (\<lambda>b. fn (rune b)) (drop (index (pos l)) (input l))) \<le> remaining l"
    using length_takeWhile_le [of _ "drop (index (pos l)) (input l)"] by (simp add: remaining_def)
  ultimately show ?thesis
    by (simp add: skipWhile_def Let_def index_skip)
qed

lemma getKey_advance:
  "isAlpha (peek l) \<Longrightarrow> getKey l = (k, l') \<Longrightarrow> smoved l l'"
proof -
  assume a: "isAlpha (peek l)" and g: "getKey l = (k, l')"
  have ne: "peek l \<noteq> eofRune" using a by auto
  then have lt: "index (pos l) < length (input l)" by (rule peek_not_eof)
  then have "isKeyChar (rune (input l ! index (pos l)))"
    using a by (simp add: peek_def isAlpha_isKeyChar)
  then have "index (pos l) < index (pos (snd (skipWhile isKeyChar l)))"
    using lt by (intro skipWhile_advance)
  moreover have "l' = snd (skipWhile isKeyChar l)"
    using g by (simp add: getKey_def takeWhileP_def Let_def)
  ultimately show ?thesis
    using getKeyD [OF g] by (simp add: smoved_def)
qed

lemma skipTo_advance:
  assumes "index (pos l) < length (input l)" "peek l \<noteq> rune c"
  shows "index (pos l) < index (pos (snd (skipTo c l)))"
proof -
  have d: "drop (index (pos l)) (input l) = input l ! index (pos l) # drop (Suc (index (pos l))) (input l)"
    using assms(1) by (simp add: Cons_nth_drop_Suc)
  have "input l ! index (pos l) \<noteq> c"
    using assms by (auto simp add: peek_def)
  then show ?thesis
    using assms(1) by (simp add: index_skipTo d)
qed


lemma getValue_post: "post (\<lambda>r. moved l) (moved l) (getValue l)"
  by (simp add: getValue_def getValue_loop_moved)

lemma post_mono:
  "post R T out \<Longrightarrow> (\<And>r l'. R r l' \<Longrightarrow> R' r l') \<Longrightarrow> (\<And>l'. T l' \<Longrightarrow> T' l') \<Longrightarrow> post R' T' out"
  by (auto simp add: post_def split: outcome.splits)

lemma smoved_index: "smoved l l' \<Longrightarrow> index (pos l) < index (pos l')"
  by (simp add: smoved_def)

lemma post_call_Value:
  assumes "smoved l lt"
  shows "post (\<lambda>u l'. stepped H l l' \<and> index (pos l) < index (pos l'))
              (\<lambda>l'. stepped H l l' \<and> index (pos l) < index (pos (snd (skipTo c l'))))
              (call_Value H (index (pos l)) kp vp k v lt)"
proof (rule post_mono [OF call_Value_post [OF smoved_imp_moved [OF assms] smoved_index [OF assms]]])
  fix u :: unit and l' :: "'a iniParse"
  assume "stepped H l l' \<and> pos l' = pos lt"
  then show "stepped H l l' \<and> index (pos l) < index (pos l')"
    using smoved_index [OF assms] by simp
next
  fix l' :: "'a iniParse"
  assume "stepped H l l' \<and> pos l' = pos lt"
  then show "stepped H l l' \<and> index (pos l) < index (pos (snd (skipTo c l')))"
    using smoved_index [OF assms] moved_index [OF moved_skipTo [of l' c]] by simp
qed

lemma post_Throw_smoved:
  assumes "smoved l l'"
  shows "stepped H l l' \<and> index (pos l) < index (pos (snd (skipTo c l')))"
  using smoved_index [OF assms] moved_index [OF moved_skipTo [of l' c]]
    moved_stepped [OF smoved_imp_moved [OF assms]] by simp

lemma do1_body_post:
  assumes lt: "index (pos l) < length (input l)"
  shows "post (\<lambda>u l'. stepped H l l' \<and> index (pos l) < index (pos l'))
              (\<lambda>l'. stepped H l l' \<and> index (pos l) < index (pos (snd (skipTo (CHR 0x0A) l'))))
              (do1_body H l)"
proof -
  let ?l1 = "snd (skipWS l)"
  let ?nl = "CHR 0x0A"
  have m1: "moved l ?l1" by (rule moved_skipWS)
  note gs = getSection_cases [of ?l1]
  show ?thesis
  proof (cases "getSection ?l1")
    case (Crash p)
    then show ?thesis by (simp add: do1_body_def Let_def)
  next
    case (Throw e l2)
    then have "smoved ?l1 l2" using gs by simp
    then have "smoved l l2" by (rule moved_smoved [OF m1])
    then show ?thesis
      using Throw post_Throw_smoved by (simp add: do1_body_def Let_def)
  next
    case (Ret r l2)
    show ?thesis
    proof (cases r)
      case (Some sc)
      then have "smoved ?l1 l2" using gs Ret by simp
      then have s2: "smoved l l2" by (rule moved_smoved [OF m1])
      let ?l4 = "snd (match [?nl] (snd (skipWS l2)))"
      have "moved l2 ?l4" by (rule moved_trans [OF moved_skipWS moved_match])
      then have s4: "smoved l ?l4" by (rule smoved_moved [OF s2])
      obtain rg l6 where g: "getRange (index (pos l)) (?l4\<lparr>sec := Some sc\<rparr>) = (rg, l6)"
        by (cases "getRange (index (pos l)) (?l4\<lparr>sec := Some sc\<rparr>)")
      note leaf = section_leaf [OF smoved_imp_moved [OF s4] smoved_index [OF s4] g]
      have body: "do1_body H l =
          (case hSection H \<lparr>ssSection = sc, ssRange = rg\<rparr> (sink l6) of
             HookPanic p \<Rightarrow> Crash p
           | HookReturn None s \<Rightarrow> Ret () (l6\<lparr>sink := s\<rparr>)
           | HookReturn (Some err) s \<Rightarrow> throwAt (l6\<lparr>sink := s\<rparr>) (pos ?l1) (sink_error_text err))"
        using Ret Some g by (simp add: do1_body_def Let_def)
      show ?thesis
      proof (cases "hSection H \<lparr>ssSection = sc, ssRange = rg\<rparr> (sink l6)")
        case (HookPanic p)
        then show ?thesis by (simp add: body)
      next
        case (HookReturn eo s)
        from leaf [OF this] have st: "stepped H l (l6\<lparr>sink := s\<rparr>)"
          and ps: "pos (l6\<lparr>sink := s\<rparr>) = pos ?l4" by simp_all
        have i: "index (pos l) < index (pos (l6\<lparr>sink := s\<rparr>))"
          using smoved_index [OF s4] ps by simp
        have i': "index (pos l) < index (pos (snd (skipTo ?nl (l6\<lparr>sink := s\<rparr>))))"
          using i moved_index [OF moved_skipTo [of "l6\<lparr>sink := s\<rparr>" ?nl]] by simp
        show ?thesis
          using HookReturn st i i' by (cases eo) (simp_all add: body)
      qed
    next
      case None
      then have l2: "l2 = ?l1" using gs Ret by simp
      show ?thesis
      proof (cases "isAlpha (peek ?l1)")
        case True
        obtain k l3 where gk: "getKey ?l1 = (k, l3)" by (cases "getKey ?l1")
        have s3: "smoved l l3" by (rule moved_smoved [OF m1 getKey_advance [OF True gk]])
        let ?l4 = "snd (skipWS l3)"
        have s4: "smoved l ?l4" by (rule smoved_moved [OF s3 moved_skipWS])
        obtain b l5 where mt: "match ''='' ?l4 = (b, l5)" by (cases "match ''='' ?l4")
        have s5: "smoved l l5" by (rule smoved_moved [OF s4 matchD [OF mt]])
        show ?thesis
        proof (cases b)
          case False
          obtain found l6 where st: "skipTo ?nl l5 = (found, l6)" by (cases "skipTo ?nl l5")
          let ?lt = "if found then skip 1 l6 else l6"
          have "moved l5 ?lt"
            using skipToD [OF st] moved_trans [OF skipToD [OF st] moved_skip] by simp
          then have "smoved l ?lt" by (rule smoved_moved [OF s5])
          note cv = post_call_Value [OF this, of H ?nl "pos ?l1" "pos l5" k None]
          show ?thesis
            using Ret None l2 True gk mt False st cv post_Throw_smoved [OF s5, of H ?nl]
            by (simp add: do1_body_def Let_def)
        next
          case True
          let ?l6 = "snd (skipWS l5)"
          have s6: "smoved l ?l6" by (rule smoved_moved [OF s5 moved_skipWS])
          note gv = getValue_post [of ?l6]
          have body: "do1_body H l =
             (case getValue ?l6 of
                Crash p \<Rightarrow> Crash p
              | Throw e l7 \<Rightarrow> Throw e l7
              | Ret val l7 \<Rightarrow> call_Value H (index (pos l)) (pos ?l1) (pos ?l6) k (Some val) l7)"
            using Ret None l2 \<open>isAlpha (peek ?l1)\<close> gk mt True by (simp add: do1_body_def Let_def)
          show ?thesis
          proof (cases "getValue ?l6")
            case (Crash p)
            then show ?thesis by (simp add: body)
          next
            case (Throw e l7)
            then have "smoved l l7" using gv smoved_moved [OF s6] by simp
            then show ?thesis using Throw post_Throw_smoved by (simp add: body)
          next
            case (Ret val l7)
            then have "smoved l l7" using gv smoved_moved [OF s6] by simp
            from post_call_Value [OF this] show ?thesis using Ret by (simp add: body)
          qed
        qed
      next
        case False
        have le: "index (pos ?l1) \<le> length (input l)"
          using m1 lt by (auto elim!: movedE)
        have inp: "input ?l1 = input l" using m1 by (auto elim!: movedE)
        show ?thesis
        proof (cases "peek ?l1 = rune CHR ''#'' \<or> peek ?l1 = rune CHR '';'' \<or> peek ?l1 = rune ?nl")
          case True
          then have "peek ?l1 \<noteq> eofRune" by (auto simp add: eofRune_def)
          then have "index (pos ?l1) < length (input ?l1)" by (rule peek_not_eof)
          then have "index (pos ?l1) < index (pos (skip 1 (snd (skipTo ?nl ?l1))))"
            by (rule skipTo_skip1_advance)
          moreover have "moved l (skip 1 (snd (skipTo ?nl ?l1)))"
            by (rule moved_trans [OF m1 moved_trans [OF moved_skipTo moved_skip]])
          ultimately have sm: "smoved l (skip 1 (snd (skipTo ?nl ?l1)))"
            using moved_index [OF m1] by (simp add: smoved_def)
          have "stepped H l (skip 1 (snd (skipTo ?nl ?l1)))"
            by (rule moved_stepped [OF smoved_imp_moved [OF sm]])
          then show ?thesis
            using Ret None l2 False True smoved_index [OF sm]
            by (simp add: do1_body_def Let_def)
        next
          case nc: False
          have "index (pos l) < index (pos (snd (skipTo ?nl ?l1)))"
          proof (cases "index (pos ?l1) < length (input ?l1)")
            case True
            have "index (pos ?l1) < index (pos (snd (skipTo ?nl ?l1)))"
              using nc by (intro skipTo_advance [OF True]) simp
            then show ?thesis using moved_index [OF m1] by simp
          next
            case False
            then have "index (pos ?l1) = length (input l)" using le inp by simp
            then show ?thesis using lt moved_index [OF moved_skipTo [of ?l1 ?nl]] by simp
          qed
          then show ?thesis
            using Ret None l2 False nc moved_stepped [OF m1]
            by (simp add: do1_body_def Let_def)
        qed
      qed
    qed
  qed
qed

lemma stepped_moved: "stepped H l a \<Longrightarrow> moved a b \<Longrightarrow> stepped H l b"
  by (erule movedE) (auto simp add: stepped_def advanced_def hook_called_def Let_def)

lemma do1_stepped:
  assumes "index (pos l) < length (input l)" and "do1 H l = Inr (e, l')"
  shows "stepped H l l' \<and> index (pos l) < index (pos l')"
proof (cases "do1_body H l")
  case (Ret u l1)
  then show ?thesis
    using do1_body_post [OF assms(1), of H] assms(2) by (simp add: do1_def)
next
  case (Throw pe l1)
  then have "stepped H l l1" and "index (pos l) < index (pos (snd (skipTo (CHR 0x0A) l1)))"
    using do1_body_post [OF assms(1), of H] by simp_all
  moreover have "l' = snd (skipTo (CHR 0x0A) l1)"
    using Throw assms(2) by (simp add: do1_def)
  ultimately show ?thesis
    using stepped_moved [OF _ moved_skipTo] by simp
next
  case (Crash p)
  then show ?thesis using assms(2) by (simp add: do1_def)
qed

lemma do1_remaining:
  assumes "0 < remaining l" and "do1 H l = Inr (e, l')"
  shows "remaining l' < remaining l"
proof -
  have lt: "index (pos l) < length (input l)" using assms(1) by (simp add: remaining_def)
  from do1_stepped [OF lt assms(2)] show ?thesis
    using lt by (auto simp add: stepped_def advanced_def remaining_def)
qed

section \<open>The statement loop\<close>

text \<open>
  The loop of \<^verbatim>\<open>do\<close>, with the errors appended so far. A panic that \<^verbatim>\<open>do1\<close> does not
  recover ends the parse.
\<close>

function do_loop ::
  "'s IniSink \<Rightarrow> 's iniParse \<Rightarrow> ParseError list \<Rightarrow> panic + ('s iniParse \<times> ParseError list)" where
  "do_loop H l err =
     (if remaining l > 0 then
        (case do1 H l of
           Inl p \<Rightarrow> Inl p
         | Inr (e, l') \<Rightarrow> do_loop H l' (case e of None \<Rightarrow> err | Some pe \<Rightarrow> err @ [pe]))
      else Inr (l, err))"
  by pat_completeness auto
termination
  by (relation "measure (\<lambda>(H, l, err). remaining l)") (auto simp add: do1_remaining)

declare do_loop.simps [simp del]

text \<open>
  \<^verbatim>\<open>do\<close> returns nil when no error was appended, the \<^verbatim>\<open>ParseErrors\<close> otherwise; the
  final parser state is returned with it.
\<close>

definition do_parse ::
  "'s IniSink \<Rightarrow> 's iniParse \<Rightarrow> panic + (ParseError list option \<times> 's iniParse)" where
  "do_parse H l =
     (case do_loop H l [] of
        Inl p \<Rightarrow> Inl p
      | Inr (l1, err) \<Rightarrow>
          (case getRange (index (pos l1)) l1 of (r, l2) \<Rightarrow>
             (case hdone H r (sink l2) of
                Inl p \<Rightarrow> Inl p
              | Inr s \<Rightarrow> Inr (if err = [] then None else Some err, l2\<lparr>sink := s\<rparr>))))"

text \<open>
  \<^verbatim>\<open>newParser\<close>; \<open>s\<close> is the state of the sink, after its \<^verbatim>\<open>Init\<close> method if it has
  one.
\<close>

definition newParser :: "'s \<Rightarrow> string \<Rightarrow> string \<Rightarrow> 's iniParse" where
  "newParser s path inp =
     \<lparr>pos = \<lparr>index = 0, lineno = 0, colno = 0\<rparr>, input = inp, filename = path, sec = None,
      prevEnd = 0, sink = s\<rparr>"

definition IniParseContents ::
  "'s IniSink \<Rightarrow> 's \<Rightarrow> string \<Rightarrow> string \<Rightarrow> panic + (ParseError list option \<times> 's)" where
  "IniParseContents H s fname contents =
     (case do_parse H (newParser s fname contents) of
        Inl p \<Rightarrow> Inl p
      | Inr (err, l) \<Rightarrow> Inr (err, sink l))"

section \<open>Rendering errors\<close>

text \<open>The verb \<^verbatim>\<open>%d\<close> on a number that is not negative.\<close>

function itoa :: "nat \<Rightarrow> string" where
  "itoa n = (if n < 10 then [char_of (48 + n)] else itoa (n div 10) @ [char_of (48 + n mod 10)])"
  by pat_completeness auto
termination
  by (relation "measure id") auto

declare itoa.simps [simp del]

definition ParseError_Error :: "ParseError \<Rightarrow> string" where
  "ParseError_Error err =
     (if File err = [] then itoa (Lineno err) @ '':'' @ itoa (Colno err) @ '': '' @ Msg err
      else File err @ '':'' @ itoa (Lineno err) @ '':'' @ itoa (Colno err) @ '': '' @ Msg err)"

fun ParseErrors_Error_from :: "nat \<Rightarrow> ParseError list \<Rightarrow> string" where
  "ParseErrors_Error_from i [] = []"
| "ParseErrors_Error_from i (e # es) =
     (if i \<noteq> 0 then [CHR 0x0A] else []) @ ParseError_Error e @ ParseErrors_Error_from (i + 1) es"

definition ParseErrors_Error :: "ParseError list \<Rightarrow> string" where
  "ParseErrors_Error err = ParseErrors_Error_from 0 err"

section \<open>The editor\<close>

text \<open>
  The fragments are a \<^verbatim>\<open>container/list\<close> list. An element of it is named by a number
  that no other element of the editor has (its identity as a pointer), so the list is
  the sequence of the elements with their vals, and \<open>nextElement\<close> is the number the
  next new element gets. A \<^verbatim>\<open>*list.Element\<close> is an \<^typ>\<open>nat option\<close>: \<open>None\<close> is nil.
  The two indices map a string to such pointers; the field \<^verbatim>\<open>values\<close> is \<open>vals\<close>.
\<close>

record IniEditor =
  fragments :: "(nat \<times> string) list"
  nextElement :: nat
  secEnd :: "string \<rightharpoonup> nat option"
  vals :: "string \<rightharpoonup> nat option list"
  lastSec :: "IniSection option"

text \<open>
  An operation on the editor returns a value with the editor it leaves, or panics and
  leaves the editor as it was at the panic.
\<close>

datatype 'a result = Returned 'a IniEditor | Panicked panic IniEditor

definition bind :: "'a result \<Rightarrow> ('a \<Rightarrow> IniEditor \<Rightarrow> 'b result) \<Rightarrow> 'b result" where
  "bind m f = (case m of Returned x ie \<Rightarrow> f x ie | Panicked p ie \<Rightarrow> Panicked p ie)"

definition elements :: "IniEditor \<Rightarrow> nat list" where
  "elements ie = map fst (fragments ie)"

definition PushBack :: "string \<Rightarrow> IniEditor \<Rightarrow> nat option \<times> IniEditor" where
  "PushBack v ie =
     (Some (nextElement ie),
      ie\<lparr>fragments := fragments ie @ [(nextElement ie, v)], nextElement := nextElement ie + 1\<rparr>)"

definition Back :: "IniEditor \<Rightarrow> nat option" where
  "Back ie = (if fragments ie = [] then None else Some (fst (last (fragments ie))))"

fun insert_after :: "nat \<Rightarrow> nat \<times> string \<Rightarrow> (nat \<times> string) list \<Rightarrow> (nat \<times> string) list" where
  "insert_after h x [] = []"
| "insert_after h x (f # fs) = (if fst f = h then f # x # fs else f # insert_after h x fs)"

fun insert_before :: "nat \<Rightarrow> nat \<times> string \<Rightarrow> (nat \<times> string) list \<Rightarrow> (nat \<times> string) list" where
  "insert_before h x [] = []"
| "insert_before h x (f # fs) = (if fst f = h then x # f # fs else f # insert_before h x fs)"

fun remove_element :: "nat \<Rightarrow> (nat \<times> string) list \<Rightarrow> (nat \<times> string) list" where
  "remove_element h [] = []"
| "remove_element h (f # fs) = (if fst f = h then fs else f # remove_element h fs)"

text \<open>
  \<^verbatim>\<open>InsertAfter\<close> and \<^verbatim>\<open>InsertBefore\<close> read \<^verbatim>\<open>mark.list\<close>: a nil mark panics, a mark
  that is not an element of the list makes them return nil and change nothing.
  \<^verbatim>\<open>Remove\<close> reads \<^verbatim>\<open>e.list\<close> in the same way.
\<close>

definition InsertAfter :: "string \<Rightarrow> nat option \<Rightarrow> IniEditor \<Rightarrow> (nat option) result" where
  "InsertAfter v mark ie =
     (case mark of
        None \<Rightarrow> Panicked NilDereference ie
      | Some h \<Rightarrow>
          if h \<notin> set (elements ie) then Returned None ie
          else Returned (Some (nextElement ie))
                 (ie\<lparr>fragments := insert_after h (nextElement ie, v) (fragments ie),
                     nextElement := nextElement ie + 1\<rparr>))"

definition InsertBefore :: "string \<Rightarrow> nat option \<Rightarrow> IniEditor \<Rightarrow> (nat option) result" where
  "InsertBefore v mark ie =
     (case mark of
        None \<Rightarrow> Panicked NilDereference ie
      | Some h \<Rightarrow>
          if h \<notin> set (elements ie) then Returned None ie
          else Returned (Some (nextElement ie))
                 (ie\<lparr>fragments := insert_before h (nextElement ie, v) (fragments ie),
                     nextElement := nextElement ie + 1\<rparr>))"

definition Remove :: "nat option \<Rightarrow> IniEditor \<Rightarrow> unit result" where
  "Remove e ie =
     (case e of
        None \<Rightarrow> Panicked NilDereference ie
      | Some h \<Rightarrow> Returned () (ie\<lparr>fragments := remove_element h (fragments ie)\<rparr>))"

definition WriteTo :: "IniEditor \<Rightarrow> string" where
  "WriteTo ie = concat (map snd (fragments ie))"

definition IniEditor_String :: "IniEditor \<Rightarrow> string" where
  "IniEditor_String ie = WriteTo ie"

text \<open>The lookup \<^verbatim>\<open>ie.values[k]\<close>: a key that is not in the map gives the nil slice.\<close>

definition values_at :: "IniEditor \<Rightarrow> string \<Rightarrow> nat option list" where
  "values_at ie k = (case vals ie k of None \<Rightarrow> [] | Some vs \<Rightarrow> vs)"

fun Remove_each :: "nat option list \<Rightarrow> IniEditor \<Rightarrow> unit result" where
  "Remove_each [] ie = Returned () ie"
| "Remove_each (e # es) ie = bind (Remove e ie) (\<lambda>u ie'. Remove_each es ie')"

definition IniEditor_Del :: "IniSection option \<Rightarrow> string \<Rightarrow> IniEditor \<Rightarrow> unit result" where
  "IniEditor_Del is' key ie =
     (case IniQKey is' key of
        Inl p \<Rightarrow> Panicked p ie
      | Inr k \<Rightarrow>
          bind (Remove_each (values_at ie k) ie)
            (\<lambda>u ie'. Returned () (ie'\<lparr>vals := (vals ie')(k := None)\<rparr>)))"

definition iniLine :: "string \<Rightarrow> string \<Rightarrow> string" where
  "iniLine key val = [CHR 0x09] @ key @ '' = '' @ EscapeIniValue val @ [CHR 0x0A]"

definition element_value :: "IniEditor \<Rightarrow> nat \<Rightarrow> string" where
  "element_value ie h = (case map_of (fragments ie) h of Some v \<Rightarrow> v | None \<Rightarrow> [])"

definition set_element_value :: "nat \<Rightarrow> string \<Rightarrow> IniEditor \<Rightarrow> IniEditor" where
  "set_element_value h v ie =
     ie\<lparr>fragments := map (\<lambda>f. if fst f = h then (h, v) else f) (fragments ie)\<rparr>"

text \<open>
  The part of \<^verbatim>\<open>newItem\<close> that runs when the section has no end marker yet: it makes the
  header (in the last fragment if that one is empty) and an empty marker after it.
\<close>

definition new_section_end :: "string \<Rightarrow> IniEditor \<Rightarrow> (nat option) result" where
  "new_section_end ss ie =
     (let ssb = ss @ [CHR 0x0A] in
      case (case Back ie of
              Some h \<Rightarrow>
                if length (element_value ie h) = 0 then (Some h, set_element_value h ssb ie)
                else PushBack ssb ie
            | None \<Rightarrow> PushBack ssb ie) of
        (e, ie1) \<Rightarrow>
          bind (InsertAfter [] e ie1)
            (\<lambda>e' ie2. Returned e' (ie2\<lparr>secEnd := (secEnd ie2)(ss \<mapsto> e')\<rparr>)))"

definition newItem :: "IniSection option \<Rightarrow> string \<Rightarrow> string \<Rightarrow> IniEditor \<Rightarrow> (nat option) result" where
  "newItem is' key val ie =
     (case IniSection_String is' of
        Inl p \<Rightarrow> Panicked p ie
      | Inr ss \<Rightarrow>
          bind (case secEnd ie ss of
                  Some e \<Rightarrow> Returned e ie
                | None \<Rightarrow> new_section_end ss ie)
            (\<lambda>e ie1.
               bind (InsertBefore (iniLine key val) e ie1)
                 (\<lambda>e' ie2.
                    case IniQKey is' key of
                      Inl p \<Rightarrow> Panicked p ie2
                    | Inr k \<Rightarrow> Returned e' (ie2\<lparr>vals := (vals ie2)(k \<mapsto> values_at ie2 k @ [e'])\<rparr>))))"

definition IniEditor_Set :: "IniSection option \<Rightarrow> string \<Rightarrow> string \<Rightarrow> IniEditor \<Rightarrow> unit result" where
  "IniEditor_Set is' key val ie =
     (case IniQKey is' key of
        Inl p \<Rightarrow> Panicked p ie
      | Inr k \<Rightarrow>
          (let vs = values_at ie k in
           if length vs > 0 then
             bind (InsertAfter (iniLine key val) (last vs) ie)
               (\<lambda>e ie1. Remove_each vs (ie1\<lparr>vals := (vals ie1)(k \<mapsto> [e])\<rparr>))
           else bind (newItem is' key val ie) (\<lambda>e ie1. Returned () ie1)))"

definition IniEditor_Add :: "IniSection option \<Rightarrow> string \<Rightarrow> string \<Rightarrow> IniEditor \<Rightarrow> unit result" where
  "IniEditor_Add is' key val ie =
     (case IniQKey is' key of
        Inl p \<Rightarrow> Panicked p ie
      | Inr k \<Rightarrow>
          (let vs = values_at ie k in
           if length vs > 0 then
             bind (InsertAfter (iniLine key val) (last vs) ie)
               (\<lambda>e ie1. Returned () (ie1\<lparr>vals := (vals ie1)(k \<mapsto> vs @ [e])\<rparr>))
           else bind (newItem is' key val ie) (\<lambda>e ie1. Returned () ie1)))"

text \<open>
  The slice \<^verbatim>\<open>r.Input[a:b]\<close> with \<open>a < b\<close>; a bound past the input panics (the capacity
  of the slice is taken to be its length).
\<close>

definition push_slice :: "string \<Rightarrow> nat \<Rightarrow> nat \<Rightarrow> IniEditor \<Rightarrow> (nat option) result" where
  "push_slice inp a b ie =
     (if b > length inp then Panicked IndexOutOfRange ie
      else case PushBack (take (b - a) (drop a inp)) ie of (e, ie') \<Rightarrow> Returned e ie')"

definition appendItem :: "IniRange \<Rightarrow> IniEditor \<Rightarrow> (nat option \<times> nat option) result" where
  "appendItem r ie =
     bind (if StartIndex r > PrevEndIndex r
           then push_slice (Input r) (PrevEndIndex r) (StartIndex r) ie
           else Returned None ie)
       (\<lambda>e1 ie1.
          bind (if EndIndex r > StartIndex r
                then push_slice (Input r) (StartIndex r) (EndIndex r) ie1
                else Returned None ie1)
            (\<lambda>e2 ie2. Returned (if e1 = None then e2 else e1, e2) ie2))"

definition set_secEnd :: "nat option \<Rightarrow> IniSection option \<Rightarrow> IniEditor \<Rightarrow> unit result" where
  "set_secEnd e next_sec ie =
     (case IniSection_String (lastSec ie) of
        Inl p \<Rightarrow> Panicked p ie
      | Inr ss \<Rightarrow> Returned () (ie\<lparr>secEnd := (secEnd ie)(ss \<mapsto> e), lastSec := next_sec\<rparr>))"

definition IniEditor_Section :: "IniSecStart \<Rightarrow> IniEditor \<Rightarrow> unit result" where
  "IniEditor_Section ss ie =
     bind (appendItem (ssRange ss) ie)
       (\<lambda>(e, e2) ie1. set_secEnd e (Some (ssSection ss)) ie1)"

definition IniEditor_Item :: "IniItem \<Rightarrow> IniEditor \<Rightarrow> unit result" where
  "IniEditor_Item ii ie =
     (case IniQKey (iiSection ii) (Key ii) of
        Inl p \<Rightarrow> Panicked p ie
      | Inr k \<Rightarrow>
          bind (appendItem (iiRange ii) ie)
            (\<lambda>(e1, e) ie1. Returned () (ie1\<lparr>vals := (vals ie1)(k \<mapsto> values_at ie1 k @ [e])\<rparr>)))"

definition IniEditor_Done :: "IniRange \<Rightarrow> IniEditor \<Rightarrow> unit result" where
  "IniEditor_Done r ie =
     bind (appendItem r ie)
       (\<lambda>(e, e2) ie1.
          case (if e = None then PushBack [] ie1 else (e, ie1)) of
            (e', ie2) \<Rightarrow> set_secEnd e' None ie2)"

text \<open>The editor as a sink: its three methods never return an error.\<close>

definition as_hook :: "unit result \<Rightarrow> IniEditor hook_result" where
  "as_hook m = (case m of Returned u ie \<Rightarrow> HookReturn None ie | Panicked p ie \<Rightarrow> HookPanic p)"

definition editor_sink :: "IniEditor IniSink" where
  "editor_sink =
     \<lparr>hValue = (\<lambda>ii ie. as_hook (IniEditor_Item ii ie)),
      hSection = (\<lambda>ss ie. as_hook (IniEditor_Section ss ie)),
      hdone = (\<lambda>r ie. case IniEditor_Done r ie of Returned u ie' \<Rightarrow> Inr ie' | Panicked p ie' \<Rightarrow> Inl p)\<rparr>"

definition empty_editor :: IniEditor where
  "empty_editor =
     \<lparr>fragments = [], nextElement = 0, secEnd = Map.empty, vals = Map.empty, lastSec = None\<rparr>"

definition NewIniEdit :: "string \<Rightarrow> string \<Rightarrow> panic + (ParseError list option \<times> IniEditor)" where
  "NewIniEdit fname contents = IniParseContents editor_sink empty_editor fname contents"

section \<open>Edit scripts\<close>

datatype edit_error = ErrInvalidNumArgs | ErrInvalidSection

text \<open>\<^verbatim>\<open>IniEdits\<close> is a slice of functions on an editor.\<close>

type_synonym IniEdits = "(IniEditor \<Rightarrow> unit result) list"

definition IniEdits_Del :: "IniEdits \<Rightarrow> string \<Rightarrow> string list \<Rightarrow> edit_error option \<times> IniEdits" where
  "IniEdits_Del ie sc args =
     (case (case args of
              [a0] \<Rightarrow> Some (\<lparr>Section = sc, Subsection = None\<rparr>, a0)
            | [a0, a1] \<Rightarrow> Some (\<lparr>Section = sc, Subsection = Some a0\<rparr>, a1)
            | _ \<Rightarrow> None) of
        None \<Rightarrow> (Some ErrInvalidNumArgs, ie)
      | Some (s, k) \<Rightarrow>
          if \<not> IniSection_Valid (Some s) then (Some ErrInvalidSection, ie)
          else (None, ie @ [IniEditor_Del (Some s) k]))"

definition IniEdits_Add :: "IniEdits \<Rightarrow> string \<Rightarrow> string list \<Rightarrow> edit_error option \<times> IniEdits" where
  "IniEdits_Add ie sc args =
     (case (case args of
              [a0, a1] \<Rightarrow> Some (\<lparr>Section = sc, Subsection = None\<rparr>, a0, a1)
            | [a0, a1, a2] \<Rightarrow> Some (\<lparr>Section = sc, Subsection = Some a0\<rparr>, a1, a2)
            | _ \<Rightarrow> None) of
        None \<Rightarrow> (Some ErrInvalidNumArgs, ie)
      | Some (s, k, v) \<Rightarrow>
          if \<not> IniSection_Valid (Some s) then (Some ErrInvalidSection, ie)
          else (None, ie @ [IniEditor_Add (Some s) k v]))"

definition IniEdits_Set :: "IniEdits \<Rightarrow> string \<Rightarrow> string list \<Rightarrow> edit_error option \<times> IniEdits" where
  "IniEdits_Set ie sc args =
     (case (case args of
              [a0, a1] \<Rightarrow> Some (\<lparr>Section = sc, Subsection = None\<rparr>, a0, a1)
            | [a0, a1, a2] \<Rightarrow> Some (\<lparr>Section = sc, Subsection = Some a0\<rparr>, a1, a2)
            | _ \<Rightarrow> None) of
        None \<Rightarrow> (Some ErrInvalidNumArgs, ie)
      | Some (s, k, v) \<Rightarrow>
          if \<not> IniSection_Valid (Some s) then (Some ErrInvalidSection, ie)
          else (None, ie @ [IniEditor_Set (Some s) k v]))"

text \<open>
  \<^verbatim>\<open>Apply\<close>: the loop over the batch, then \<^verbatim>\<open>*ie = nil\<close>. A panic of an operation leaves
  the loop, so the batch keeps its operations.
\<close>

fun Apply_loop :: "IniEdits \<Rightarrow> IniEditor \<Rightarrow> unit result" where
  "Apply_loop [] target = Returned () target"
| "Apply_loop (f # fs) target = bind (f target) (\<lambda>u target'. Apply_loop fs target')"

definition IniEdits_Apply :: "IniEdits \<Rightarrow> IniEditor \<Rightarrow> unit result \<times> IniEdits" where
  "IniEdits_Apply ie target =
     (case Apply_loop ie target of
        Returned u t \<Rightarrow> (Returned () t, [])
      | Panicked p t \<Rightarrow> (Panicked p t, ie))"

section \<open>Valid names\<close>

lemma and_not_32: "(c::int) AND NOT 0x20 = c - of_bool (bit c 5) * 32"
  using unset_bit_eq [of 5 c] unset_bit_eq_and_not [of 5 c] by simp

lemma isAlpha_iff:
  "isAlpha c \<longleftrightarrow> (65 \<le> c \<and> c \<le> 90) \<or> (97 \<le> c \<and> c \<le> 122)"
proof -
  have b: "bit c 5 \<longleftrightarrow> odd (c div 32)"
    by (simp add: bit_iff_odd)
  show ?thesis
    unfolding isAlpha_def Let_def and_not_32 b
    by (cases "odd (c div 32)") (simp_all, presburger+)
qed

lemma isKeyChar_iff:
  "isKeyChar c \<longleftrightarrow> (65 \<le> c \<and> c \<le> 90) \<or> (97 \<le> c \<and> c \<le> 122) \<or> (48 \<le> c \<and> c \<le> 57) \<or> c = 45"
  by (auto simp add: isKeyChar_def isAlpha_iff)

lemma IndexFunc_from_none:
  "0 \<le> i \<Longrightarrow> IndexFunc_from i s f = - 1 \<longleftrightarrow> (\<forall>b \<in> set s. \<not> f (rune b))"
  by (induction s arbitrary: i) auto

lemma rune_nat: "rune c = int (of_char c)"
  by (simp add: of_nat_of_char)

lemma ValidIniSection_chars:
  "ValidIniSection s \<longleftrightarrow> s \<noteq> [] \<and> (\<forall>c \<in> set s. isKeyChar (rune c))"
  using IndexFunc_from_none [of 0 s "\<lambda>r. \<not> isKeyChar r"]
  by (auto simp add: ValidIniSection_def IndexFunc_def)

text \<open>
  Claim C8. \<^verbatim>\<open>ValidIniSection\<close> holds of exactly the strings that are not empty and
  consist of ASCII letters, ASCII digits and \<open>-\<close>; the empty string is not valid; and the
  rendering of a section that is not nil is never the empty string, the rendering of the
  nil section under which the part before the first section is indexed.
\<close>

theorem ValidIniSection_iff:
  "(ValidIniSection s \<longleftrightarrow>
      s \<noteq> [] \<and>
      (\<forall>c \<in> set s.
         (of_char CHR ''A'' \<le> (of_char c :: nat) \<and> (of_char c :: nat) \<le> of_char CHR ''Z'') \<or>
         (of_char CHR ''a'' \<le> (of_char c :: nat) \<and> (of_char c :: nat) \<le> of_char CHR ''z'') \<or>
         (of_char CHR ''0'' \<le> (of_char c :: nat) \<and> (of_char c :: nat) \<le> of_char CHR ''9'') \<or>
         c = CHR ''-''))
   \<and> \<not> ValidIniSection []
   \<and> IniSection_String (Some sc) \<noteq> IniSection_String None"
proof -
  have k: "isKeyChar (rune c) \<longleftrightarrow>
         (of_char CHR ''A'' \<le> (of_char c :: nat) \<and> (of_char c :: nat) \<le> of_char CHR ''Z'') \<or>
         (of_char CHR ''a'' \<le> (of_char c :: nat) \<and> (of_char c :: nat) \<le> of_char CHR ''z'') \<or>
         (of_char CHR ''0'' \<le> (of_char c :: nat) \<and> (of_char c :: nat) \<le> of_char CHR ''9'') \<or>
         c = CHR ''-''" for c
  proof -
    have "c = CHR ''-'' \<longleftrightarrow> (of_char c :: nat) = 45"
      using of_char_eq_iff [of c "CHR ''-''", where ?'a = nat] by simp
    then show ?thesis
      unfolding isKeyChar_iff rune_nat by auto
  qed
  have "IniSection_String (Some sc) \<noteq> Inr []"
    by (simp add: IniSection_String_def split: option.splits sum.splits)
  then show ?thesis
    by (simp add: ValidIniSection_chars k IniSection_String_def)
qed

theorem ValidIniSection_iff_witness:
  "ValidIniSection ''a-Z9'' \<and> \<not> ValidIniSection ''a b'' \<and> \<not> ValidIniSection []"
  using ValidIniSection_iff [of "''a-Z9''"] ValidIniSection_iff [of "''a b''"] by simp

section \<open>Rounds of the statement loop\<close>

text \<open>
  The loop of \<^verbatim>\<open>do\<close> by one round, and the rounds of \<^verbatim>\<open>do1\<close> on the six bytes \<^verbatim>\<open>= foo\<close>
  and newline: the first throws at the equals sign and recovers to the newline, the second
  consumes the newline.
\<close>

lemmas cursor_defs = skipWS_def skipWhile_def match_def skipTo_def skip_def skip_byte_def
  remaining_def peek_def getKey_def takeWhileP_def IndexByte_def tabwidth_def

lemma do_loop_step:
  "0 < remaining l \<Longrightarrow> do1 H l = Inr (e, l')
     \<Longrightarrow> do_loop H l err = do_loop H l' (case e of None \<Rightarrow> err | Some pe \<Rightarrow> err @ [pe])"
  by (subst do_loop.simps) simp

lemma do_loop_crash:
  "0 < remaining l \<Longrightarrow> do1 H l = Inl p \<Longrightarrow> do_loop H l err = Inl p"
  by (subst do_loop.simps) simp

lemma do_loop_stop:
  "remaining l = 0 \<Longrightarrow> do_loop H l err = Inr (l, err)"
  by (subst do_loop.simps) simp

lemma do1_body_bad_start:
  "do1_body H (newParser s fname ''= foo\<newline>'') =
     Throw \<lparr>File = fname, Lineno = 1, Colno = 1, Msg = ''Expected section or key''\<rparr>
       (newParser s fname ''= foo\<newline>'')"
  by (simp add: do1_body_def Let_def newParser_def getSection_def cursor_defs
        isAlpha_iff throw_def throwAt_def eofRune_def)

lemma do1_bad_start:
  "do1 H (newParser s fname ''= foo\<newline>'') =
     Inr (Some \<lparr>File = fname, Lineno = 1, Colno = 1, Msg = ''Expected section or key''\<rparr>,
          (newParser s fname ''= foo\<newline>'')\<lparr>pos := \<lparr>index = 5, lineno = 0, colno = 5\<rparr>\<rparr>)"
  by (simp add: do1_def do1_body_def Let_def newParser_def getSection_def cursor_defs
        isAlpha_iff throw_def throwAt_def eofRune_def)

lemma do1_newline:
  "do1 H ((newParser s fname ''= foo\<newline>'')\<lparr>pos := \<lparr>index = 5, lineno = 0, colno = 5\<rparr>\<rparr>) =
     Inr (None, (newParser s fname ''= foo\<newline>'')\<lparr>pos := \<lparr>index = 6, lineno = 1, colno = 0\<rparr>\<rparr>)"
  by (simp add: do1_def do1_body_def Let_def newParser_def getSection_def cursor_defs
        isAlpha_iff throw_def throwAt_def eofRune_def)

section \<open>Termination of the parse\<close>

text \<open>
  The number of rounds of the loop of \<^verbatim>\<open>do\<close> from a state on (a round that panics is
  counted): a counter beside \<open>do_loop\<close>, for stating the bound on the rounds.
\<close>

function do_rounds :: "'s IniSink \<Rightarrow> 's iniParse \<Rightarrow> nat" where
  "do_rounds H l =
     (if remaining l > 0 then
        (case do1 H l of Inl p \<Rightarrow> 1 | Inr (e, l') \<Rightarrow> 1 + do_rounds H l')
      else 0)"
  by pat_completeness auto
termination
  by (relation "measure (\<lambda>(H, l). remaining l)") (auto simp add: do1_remaining)

declare do_rounds.simps [simp del]

lemma do_rounds_le: "do_rounds H l \<le> remaining l"
proof (induction H l rule: do_rounds.induct)
  case (1 H l)
  show ?case
  proof (cases "remaining l > 0")
    case False
    then show ?thesis by (subst do_rounds.simps) simp
  next
    case True
    show ?thesis
    proof (cases "do1 H l")
      case (Inl p)
      then show ?thesis using True by (subst do_rounds.simps) simp
    next
      case (Inr r)
      obtain e l' where r: "r = (e, l')" by (cases r)
      have "do_rounds H l' \<le> remaining l'"
        using "1.IH" [OF True Inr r [symmetric]] .
      moreover have "remaining l' < remaining l"
        using do1_remaining [OF True] Inr r by simp
      ultimately show ?thesis
        using True Inr r by (subst do_rounds.simps) simp
    qed
  qed
qed

lemma do_rounds_bad_start: "do_rounds H (newParser s fname ''= foo\<newline>'') = 2"
proof -
  let ?l0 = "newParser s fname ''= foo\<newline>''"
  let ?l1 = "?l0\<lparr>pos := \<lparr>index = 5, lineno = 0, colno = 5\<rparr>\<rparr>"
  let ?l2 = "?l0\<lparr>pos := \<lparr>index = 6, lineno = 1, colno = 0\<rparr>\<rparr>"
  have r0: "0 < remaining ?l0" and r1: "0 < remaining ?l1" and r2: "remaining ?l2 = 0"
    by (simp_all add: remaining_def newParser_def)
  have "do_rounds H ?l2 = 0" using r2 by (subst do_rounds.simps) simp
  then have "do_rounds H ?l1 = 1" using r1 do1_newline [of H s fname] by (subst do_rounds.simps) simp
  then show ?thesis using r0 do1_bad_start [of H s fname] by (subst do_rounds.simps) simp
qed

text \<open>
  Claim C10. While input remains, a round of the statement loop that returns (with or
  without a recovered parse error) leaves the cursor strictly further on and not past the
  end of the same input; so the loop of \<^verbatim>\<open>do\<close> makes at most as many rounds as input
  bytes remain, at most the length of the input from a new parser. A round returns whenever
  the body of \<^verbatim>\<open>do1\<close> returns or throws a \<^verbatim>\<open>ParseError\<close>, and the cursor is strictly
  further on also after the recovery has skipped to the next newline; a round that panics
  ends the loop with that panic and is its last round. The loop and the loops inside it
  are total functions: the parse never runs forever.
\<close>

theorem do1_advances_cursor:
  "(0 < remaining l \<longrightarrow>
      (case do1 H l of
         Inl p \<Rightarrow> True
       | Inr (e, l') \<Rightarrow>
           index (pos l) < index (pos l') \<and> index (pos l') \<le> length (input l)
           \<and> input l' = input l))
   \<and> do_rounds H l \<le> remaining l
   \<and> do_rounds H (newParser s fname contents) \<le> length contents
   \<and> (0 < remaining l \<longrightarrow> do1_body H l = Ret () l1 \<longrightarrow>
        do1 H l = Inr (None, l1) \<and> index (pos l) < index (pos l1))
   \<and> (0 < remaining l \<longrightarrow> do1_body H l = Throw pe l1 \<longrightarrow>
        do1 H l = Inr (Some pe, snd (skipTo (CHR 0x0A) l1))
        \<and> index (pos l) < index (pos (snd (skipTo (CHR 0x0A) l1))))
   \<and> (0 < remaining l \<longrightarrow> do1 H l = Inl p \<longrightarrow> do_loop H l err = Inl p \<and> do_rounds H l = 1)"
proof -
  have adv: "index (pos l) < index (pos l') \<and> index (pos l') \<le> length (input l) \<and> input l' = input l"
    if "0 < remaining l" "do1 H l = Inr (e, l')" for e l'
  proof -
    have lt: "index (pos l) < length (input l)" using that(1) by (simp add: remaining_def)
    from do1_stepped [OF lt that(2)] show ?thesis
      using lt by (auto simp add: stepped_def advanced_def)
  qed
  have 1: "0 < remaining l \<longrightarrow>
      (case do1 H l of
         Inl p \<Rightarrow> True
       | Inr (e, l') \<Rightarrow>
           index (pos l) < index (pos l') \<and> index (pos l') \<le> length (input l)
           \<and> input l' = input l)"
    using adv by (auto split: sum.splits)
  have 2: "do_rounds H l \<le> remaining l" by (rule do_rounds_le)
  have 3: "do_rounds H (newParser s fname contents) \<le> length contents"
    using do_rounds_le [of H "newParser s fname contents"]
    by (simp add: remaining_def newParser_def)
  have 4: "0 < remaining l \<longrightarrow> do1_body H l = Ret () l1 \<longrightarrow>
        do1 H l = Inr (None, l1) \<and> index (pos l) < index (pos l1)"
  proof (intro impI)
    assume r: "0 < remaining l" and b: "do1_body H l = Ret () l1"
    have d: "do1 H l = Inr (None, l1)" using b by (simp add: do1_def)
    from adv [OF r d] d show "do1 H l = Inr (None, l1) \<and> index (pos l) < index (pos l1)" by simp
  qed
  have 5: "0 < remaining l \<longrightarrow> do1_body H l = Throw pe l1 \<longrightarrow>
        do1 H l = Inr (Some pe, snd (skipTo (CHR 0x0A) l1))
        \<and> index (pos l) < index (pos (snd (skipTo (CHR 0x0A) l1)))"
  proof (intro impI)
    assume r: "0 < remaining l" and b: "do1_body H l = Throw pe l1"
    have d: "do1 H l = Inr (Some pe, snd (skipTo (CHR 0x0A) l1))" using b by (simp add: do1_def)
    from adv [OF r d] d show "do1 H l = Inr (Some pe, snd (skipTo (CHR 0x0A) l1))
        \<and> index (pos l) < index (pos (snd (skipTo (CHR 0x0A) l1)))" by simp
  qed
  have 6: "0 < remaining l \<longrightarrow> do1 H l = Inl p \<longrightarrow> do_loop H l err = Inl p \<and> do_rounds H l = 1"
  proof (intro impI conjI)
    assume r: "0 < remaining l" and d: "do1 H l = Inl p"
    show "do_loop H l err = Inl p" by (rule do_loop_crash [OF r d])
    show "do_rounds H l = 1" using r d by (subst do_rounds.simps) simp
  qed
  show ?thesis
    by (intro conjI) (fact 1 2 3 4 5 6)+
qed

theorem do1_advances_cursor_witness:
  "0 < remaining (newParser empty_editor ''f'' ''= foo\<newline>'')
   \<and> do1_body editor_sink (newParser empty_editor ''f'' ''= foo\<newline>'')
       = Throw \<lparr>File = ''f'', Lineno = 1, Colno = 1, Msg = ''Expected section or key''\<rparr>
           (newParser empty_editor ''f'' ''= foo\<newline>'')
   \<and> do1 editor_sink (newParser empty_editor ''f'' ''= foo\<newline>'')
       = Inr (Some \<lparr>File = ''f'', Lineno = 1, Colno = 1, Msg = ''Expected section or key''\<rparr>,
              (newParser empty_editor ''f'' ''= foo\<newline>'')\<lparr>pos := \<lparr>index = 5, lineno = 0, colno = 5\<rparr>\<rparr>)
   \<and> (case do1 editor_sink (newParser empty_editor ''f'' ''= foo\<newline>'') of
         Inl p \<Rightarrow> False
       | Inr (e, l') \<Rightarrow>
           index (pos (newParser empty_editor ''f'' ''= foo\<newline>'')) < index (pos l')
           \<and> index (pos l') \<le> length (input (newParser empty_editor ''f'' ''= foo\<newline>''))
           \<and> input l' = input (newParser empty_editor ''f'' ''= foo\<newline>''))
   \<and> do_rounds editor_sink (newParser empty_editor ''f'' ''= foo\<newline>'') = 2
   \<and> do_rounds editor_sink (newParser empty_editor ''f'' ''= foo\<newline>'') \<le> length ''= foo\<newline>''"
proof -
  let ?l = "newParser empty_editor ''f'' ''= foo\<newline>''"
  let ?pe = "\<lparr>File = ''f'', Lineno = 1, Colno = 1, Msg = ''Expected section or key''\<rparr>"
  note t = do1_advances_cursor [where l = ?l and H = editor_sink and s = empty_editor
      and fname = "''f''" and contents = "''= foo\<newline>''" and pe = ?pe and ?l1.0 = ?l]
  have h: "0 < remaining ?l"
    by (simp add: remaining_def newParser_def)
  have b: "do1_body editor_sink ?l = Throw ?pe ?l" by (rule do1_body_bad_start)
  have s: "snd (skipTo (CHR 0x0A) ?l) = ?l\<lparr>pos := \<lparr>index = 5, lineno = 0, colno = 5\<rparr>\<rparr>"
    by (simp add: newParser_def cursor_defs)
  have d: "do1 editor_sink ?l = Inr (Some ?pe, ?l\<lparr>pos := \<lparr>index = 5, lineno = 0, colno = 5\<rparr>\<rparr>)"
    using t [THEN conjunct2, THEN conjunct2, THEN conjunct2, THEN conjunct2, THEN conjunct1,
        THEN mp, THEN mp, OF h b, THEN conjunct1]
    unfolding s .
  have c: "case do1 editor_sink ?l of
         Inl p \<Rightarrow> False
       | Inr (e, l') \<Rightarrow>
           index (pos ?l) < index (pos l') \<and> index (pos l') \<le> length (input ?l)
           \<and> input l' = input ?l"
    using t [THEN conjunct1, THEN mp, OF h] unfolding d by simp
  have r: "do_rounds editor_sink ?l = 2" by (rule do_rounds_bad_start)
  have r': "do_rounds editor_sink ?l \<le> length ''= foo\<newline>''"
    by (rule t [THEN conjunct2, THEN conjunct2, THEN conjunct1])
  show ?thesis
    by (intro conjI) (fact h b d c r r')+
qed


section \<open>Parsing a line that starts with an equals sign\<close>

lemma do_loop_bad_start:
  "do_loop H (newParser s fname ''= foo\<newline>'') [] =
     Inr ((newParser s fname ''= foo\<newline>'')\<lparr>pos := \<lparr>index = 6, lineno = 1, colno = 0\<rparr>\<rparr>,
          [\<lparr>File = fname, Lineno = 1, Colno = 1, Msg = ''Expected section or key''\<rparr>])"
proof -
  let ?l0 = "newParser s fname ''= foo\<newline>''"
  let ?l1 = "?l0\<lparr>pos := \<lparr>index = 5, lineno = 0, colno = 5\<rparr>\<rparr>"
  let ?l2 = "?l0\<lparr>pos := \<lparr>index = 6, lineno = 1, colno = 0\<rparr>\<rparr>"
  let ?pe = "\<lparr>File = fname, Lineno = 1, Colno = 1, Msg = ''Expected section or key''\<rparr>"
  have r0: "0 < remaining ?l0" and r1: "0 < remaining ?l1" and r2: "remaining ?l2 = 0"
    by (simp_all add: remaining_def newParser_def)
  have "do_loop H ?l0 [] = do_loop H ?l1 [?pe]"
    using do_loop_step [OF r0 do1_bad_start, where err = "[]"] by simp
  also have "\<dots> = do_loop H ?l2 [?pe]"
    using do_loop_step [OF r1 do1_newline, where err = "[?pe]"] by simp
  also have "\<dots> = Inr (?l2, [?pe])"
    by (rule do_loop_stop [OF r2])
  finally show ?thesis .
qed

lemma parse_bad_start:
  "IniParseContents H s fname ''= foo\<newline>'' =
     (case hdone H \<lparr>StartIndex = 6, EndIndex = 6, PrevEndIndex = 0, Input = ''= foo\<newline>''\<rparr> s of
        Inl p \<Rightarrow> Inl p
      | Inr s' \<Rightarrow>
          Inr (Some [\<lparr>File = fname, Lineno = 1, Colno = 1, Msg = ''Expected section or key''\<rparr>], s'))"
  unfolding IniParseContents_def do_parse_def do_loop_bad_start
  by (simp add: getRange_def Let_def newParser_def split: sum.splits)

text \<open>
  Claim C5, as amended. Whatever the sink and the file name, parsing the six bytes
  \<^verbatim>\<open>= foo\<close> and newline returns exactly one parse error, at line 1, column 1, with the
  message \<^verbatim>\<open>Expected section or key\<close> (capital E), after calling the sink's end hook
  with the whole input as the trailing gap.
\<close>

theorem bad_start_one_error:
  "IniParseContents H s fname ''= foo\<newline>'' =
     (case hdone H \<lparr>StartIndex = 6, EndIndex = 6, PrevEndIndex = 0, Input = ''= foo\<newline>''\<rparr> s of
        Inl p \<Rightarrow> Inl p
      | Inr s' \<Rightarrow>
          Inr (Some [\<lparr>File = fname, Lineno = 1, Colno = 1, Msg = ''Expected section or key''\<rparr>], s'))"
  by (rule parse_bad_start)

text \<open>
  Claim C5 as stated fails: the one error the editor's parse of that input returns does
  not carry the message \<^verbatim>\<open>expected section or key\<close> in lower case.
\<close>

theorem bad_start_counterexample:
  "map_sum id fst (NewIniEdit ''cfg'' ''= foo\<newline>'') \<noteq>
     Inr (Some [\<lparr>File = ''cfg'', Lineno = 1, Colno = 1, Msg = ''expected section or key''\<rparr>])"
  by (simp add: NewIniEdit_def parse_bad_start split: sum.splits)


section \<open>Recovery from parse errors\<close>

lemma skipTo_lands:
  "snd (skipTo c l) = l\<lparr>pos := pos (snd (skipTo c l))\<rparr>
   \<and> index (pos l) \<le> index (pos (snd (skipTo c l)))
   \<and> (peek (snd (skipTo c l)) = rune c \<or> peek (snd (skipTo c l)) = eofRune)
   \<and> c \<notin> set (take (index (pos (snd (skipTo c l))) - index (pos l)) (drop (index (pos l)) (input l)))"
proof -
  let ?l' = "snd (skipTo c l)"
  let ?rest = "drop (index (pos l)) (input l)"
  let ?k = "length (takeWhile (\<lambda>b. b \<noteq> c) ?rest)"
  have m: "moved l ?l'" by (rule moved_skipTo)
  from m obtain p where p: "?l' = l\<lparr>pos := p\<rparr>" by (rule movedE)
  have 1: "?l' = l\<lparr>pos := pos ?l'\<rparr>"
    by (subst (2) p, subst p) simp
  have 2: "index (pos l) \<le> index (pos ?l')" using m by (rule moved_index)
  have 3: "peek ?l' = rune c \<or> peek ?l' = eofRune"
  proof (cases "c \<in> set ?rest")
    case True
    then have k: "?k < length ?rest" by (intro length_takeWhile_less) auto
    have i: "index (pos ?l') = index (pos l) + ?k"
      using True by (simp only: index_skipTo if_True)
    have "?rest ! ?k = c"
      using nth_length_takeWhile [OF k] by simp
    then have "input l ! (index (pos l) + ?k) = c"
      using k by simp
    moreover have "index (pos l) + ?k < length (input l)" using k by simp
    ultimately show ?thesis
      unfolding peek_def i input_skipTo by simp
  next
    case False
    then have "index (pos ?l') = max (index (pos l)) (length (input l))"
      by (simp only: index_skipTo if_False)
    then show ?thesis unfolding peek_def input_skipTo by simp
  qed
  have 4: "c \<notin> set (take (index (pos ?l') - index (pos l)) ?rest)"
  proof (cases "c \<in> set ?rest")
    case True
    have i: "index (pos ?l') - index (pos l) = ?k"
      using True by (simp only: index_skipTo if_True)
    have "take ?k ?rest = takeWhile (\<lambda>b. b \<noteq> c) ?rest"
      by (rule takeWhile_eq_take [symmetric])
    then show ?thesis
      unfolding i using set_takeWhileD [of c "\<lambda>b. b \<noteq> c" ?rest] by auto
  next
    case False
    then show ?thesis using in_set_takeD by fast
  qed
  show ?thesis by (intro conjI) (rule 1 2 3 4)+
qed

lemma do_loop_end:
  "do_loop H l err = Inr (l', err') \<Longrightarrow>
     remaining l' = 0 \<and> input l' = input l
     \<and> (index (pos l) \<le> length (input l) \<longrightarrow> index (pos l') \<le> length (input l))"
proof (induction H l err rule: do_loop.induct)
  case (1 H l err)
  show ?case
  proof (cases "0 < remaining l")
    case False
    then show ?thesis using "1.prems" by (simp add: do_loop_stop)
  next
    case True
    show ?thesis
    proof (cases "do1 H l")
      case (Inl p)
      then show ?thesis using "1.prems" True by (simp add: do_loop_crash)
    next
      case (Inr r)
      obtain e l1 where r: "r = (e, l1)" by (cases r)
      have d: "do1 H l = Inr (e, l1)" using Inr r by simp
      have lt: "index (pos l) < length (input l)" using True by (simp add: remaining_def)
      have st: "stepped H l l1" using do1_stepped [OF lt d] by simp
      have "do_loop H l1 (case e of None \<Rightarrow> err | Some pe \<Rightarrow> err @ [pe]) = Inr (l', err')"
        using "1.prems" do_loop_step [OF True d] by simp
      from "1.IH" [OF True Inr r [symmetric] this] show ?thesis
        using st lt by (auto simp add: stepped_def advanced_def)
    qed
  qed
qed

lemma do_loop_errors:
  "do_loop H l err =
     (case do_loop H l [] of Inl p \<Rightarrow> Inl p | Inr (l', new) \<Rightarrow> Inr (l', err @ new))"
proof (induction "remaining l" arbitrary: l err rule: less_induct)
  case less
  show ?case
  proof (cases "0 < remaining l")
    case False
    then show ?thesis by (simp add: do_loop_stop)
  next
    case True
    show ?thesis
    proof (cases "do1 H l")
      case (Inl p)
      then show ?thesis using True by (simp add: do_loop_crash)
    next
      case (Inr r)
      obtain e l1 where r: "r = (e, l1)" by (cases r)
      have d: "do1 H l = Inr (e, l1)" using Inr r by simp
      let ?a = "case e of None \<Rightarrow> [] | Some pe \<Rightarrow> [pe]"
      have ea: "(case e of None \<Rightarrow> err | Some pe \<Rightarrow> err @ [pe]) = err @ ?a"
        by (cases e) simp_all
      have e0: "(case e of None \<Rightarrow> [] | Some pe \<Rightarrow> [] @ [pe]) = ?a"
        by (cases e) simp_all
      have sm: "remaining l1 < remaining l" by (rule do1_remaining [OF True d])
      have "do_loop H l err = do_loop H l1 (err @ ?a)"
        using do_loop_step [OF True d, where err = err] ea by simp
      also have "\<dots> = (case do_loop H l1 [] of Inl p \<Rightarrow> Inl p
                        | Inr (l', new) \<Rightarrow> Inr (l', (err @ ?a) @ new))"
        by (rule less [OF sm])
      finally have 1: "do_loop H l err = (case do_loop H l1 [] of Inl p \<Rightarrow> Inl p
                        | Inr (l', new) \<Rightarrow> Inr (l', err @ ?a @ new))"
        by (auto split: sum.splits)
      have "do_loop H l [] = do_loop H l1 ?a"
        using do_loop_step [OF True d, where err = "[]"] e0 by simp
      also have "\<dots> = (case do_loop H l1 [] of Inl p \<Rightarrow> Inl p
                        | Inr (l', new) \<Rightarrow> Inr (l', ?a @ new))"
        by (rule less [OF sm])
      finally show ?thesis
        using 1 by (auto split: sum.splits)
    qed
  qed
qed

lemma ParseErrors_Error_from_pos:
  "0 < i \<Longrightarrow> 0 < j \<Longrightarrow> ParseErrors_Error_from i es = ParseErrors_Error_from j es"
proof (induction es arbitrary: i j)
  case Nil
  show ?case by simp
next
  case (Cons e es)
  have "ParseErrors_Error_from (i + 1) es = ParseErrors_Error_from (j + 1) es"
    by (rule Cons.IH) simp_all
  then show ?case using Cons.prems by simp
qed

lemma ParseErrors_Error_from_Suc:
  "ParseErrors_Error_from (Suc i) es =
     (if es = [] then [] else CHR 0x0A # ParseErrors_Error_from 0 es)"
  using ParseErrors_Error_from_pos [of "Suc (Suc i)" "Suc 0"]
  by (cases es) simp_all


text \<open>
  Where a thrown \<^verbatim>\<open>ParseError\<close> comes from. \<^verbatim>\<open>throw\<close> reports the cursor of the state it
  is called on; \<^verbatim>\<open>throwAt\<close> is called by \<^verbatim>\<open>do1\<close> only after a callback of the sink has
  returned an error.
\<close>

definition at_cursor :: "ParseError \<Rightarrow> 's iniParse \<Rightarrow> bool" where
  "at_cursor pe l \<longleftrightarrow>
     File pe = filename l \<and> Lineno pe = lineno (pos l) + 1 \<and> Colno pe = colno (pos l) + 1"

definition rejected :: "'s IniSink \<Rightarrow> 's iniParse \<Rightarrow> 's iniParse \<Rightarrow> bool" where
  "rejected H l l' \<longleftrightarrow>
     (\<exists>ss err. hSection H ss (sink l) = HookReturn (Some err) (sink l'))
     \<or> (\<exists>ii err. hValue H ii (sink l) = HookReturn (Some err) (sink l'))"

definition thrown :: "(ParseError \<Rightarrow> 's iniParse \<Rightarrow> bool) \<Rightarrow> ('a, 's) outcome \<Rightarrow> bool" where
  "thrown T out = (case out of Ret r l' \<Rightarrow> True | Throw e l' \<Rightarrow> T e l' | Crash p \<Rightarrow> True)"

lemma thrown_simps [simp]:
  "thrown T (Ret r l') = True"
  "thrown T (Throw e l') = T e l'"
  "thrown T (Crash p) = True"
  by (simp_all add: thrown_def)

lemma thrown_if:
  "(c \<Longrightarrow> thrown T a) \<Longrightarrow> (\<not> c \<Longrightarrow> thrown T b) \<Longrightarrow> thrown T (if c then a else b)"
  by simp

lemma thrown_prod:
  "(\<And>a b. p = (a, b) \<Longrightarrow> thrown T (f a b)) \<Longrightarrow> thrown T (case p of (a, b) \<Rightarrow> f a b)"
  by (cases p) simp

lemma thrown_bool:
  "(b \<Longrightarrow> thrown T x) \<Longrightarrow> (\<not> b \<Longrightarrow> thrown T y) \<Longrightarrow> thrown T (case b of True \<Rightarrow> x | False \<Rightarrow> y)"
  by (cases b) simp_all

lemma thrown_option:
  "(x = None \<Longrightarrow> thrown T a) \<Longrightarrow> (\<And>y. x = Some y \<Longrightarrow> thrown T (f y))
     \<Longrightarrow> thrown T (case x of None \<Rightarrow> a | Some y \<Rightarrow> f y)"
  by (cases x) simp_all

lemma thrown_outcome:
  "(\<And>r l'. x = Ret r l' \<Longrightarrow> thrown T (f r l')) \<Longrightarrow> (\<And>e l'. x = Throw e l' \<Longrightarrow> thrown T (g e l'))
     \<Longrightarrow> (\<And>p. x = Crash p \<Longrightarrow> thrown T (h p))
     \<Longrightarrow> thrown T (case x of Ret r l' \<Rightarrow> f r l' | Throw e l' \<Rightarrow> g e l' | Crash p \<Rightarrow> h p)"
  by (cases x) simp_all

lemma thrown_hook:
  "(\<And>eo s. x = HookReturn eo s \<Longrightarrow> thrown T (f eo s)) \<Longrightarrow> (\<And>p. x = HookPanic p \<Longrightarrow> thrown T (h p))
     \<Longrightarrow> thrown T (case x of HookReturn eo s \<Rightarrow> f eo s | HookPanic p \<Rightarrow> h p)"
  by (cases x) simp_all

lemma thrown_sum:
  "(\<And>x. s = Inl x \<Longrightarrow> thrown T (f x)) \<Longrightarrow> (\<And>y. s = Inr y \<Longrightarrow> thrown T (g y))
     \<Longrightarrow> thrown T (case s of Inl x \<Rightarrow> f x | Inr y \<Rightarrow> g y)"
  by (cases s) simp_all

lemma thrown_sink_error:
  "(\<And>m. x = BadKey m \<Longrightarrow> thrown T (f m)) \<Longrightarrow> (\<And>m. x = OtherError m \<Longrightarrow> thrown T (g m))
     \<Longrightarrow> thrown T (case x of BadKey m \<Rightarrow> f m | OtherError m \<Rightarrow> g m)"
  by (cases x) simp_all

lemmas thrown_intros = thrown_if thrown_prod thrown_bool thrown_option thrown_outcome thrown_hook
  thrown_sink_error

lemma getSection_at_cursor: "thrown at_cursor (getSection l)"
  unfolding getSection_def
  by (intro thrown_intros; simp add: getSubsection_no_Throw throw_def throwAt_def at_cursor_def)

lemma getValue_loop_at_cursor:
  "thrown at_cursor (getValue_loop escape inquote ret l)"
proof (induction escape inquote ret l rule: getValue_loop.induct)
  case (1 escape inquote ret l)
  note IH = "1.IH" [OF refl]
  show ?case
    apply (subst getValue_loop.simps)
    apply (simp only: Let_def)
    apply (intro thrown_if thrown_sum;
           ((rule IH; assumption) | (simp add: throw_def throwAt_def at_cursor_def)))
    done
qed

lemma getValue_at_cursor: "thrown at_cursor (getValue l)"
  by (simp add: getValue_def getValue_loop_at_cursor)

lemma moved_sink: "moved l l' \<Longrightarrow> sink l' = sink l"
  by (erule movedE) simp

lemma call_Value_rejected:
  assumes "moved l lt"
  shows "thrown (\<lambda>e l'. rejected H l l') (call_Value H si kp vp k v lt)"
  unfolding call_Value_def Let_def getRange_def
  apply (intro thrown_intros)
  using moved_sink [OF assms]
  by (auto simp add: throwAt_def rejected_def)


lemma thrown_mono:
  "thrown T out \<Longrightarrow> (\<And>e l'. T e l' \<Longrightarrow> T' e l') \<Longrightarrow> thrown T' out"
  by (auto simp add: thrown_def split: outcome.splits)

lemma getValue_moved: "getValue l = Ret v l' \<or> getValue l = Throw e l' \<Longrightarrow> moved l l'"
  using getValue_post [of l] by auto

lemma do1_body_thrown:
  "thrown (\<lambda>e l'. (moved l l' \<and> at_cursor e l') \<or> rejected H l l') (do1_body H l)"
proof -
  let ?l1 = "snd (skipWS l)"
  have m1: "moved l ?l1" by (rule moved_skipWS)
  have gs: "moved l l2" if "getSection ?l1 = Ret a l2" for a l2
    using moved_trans [OF m1 moved_getSection [of ?l1 a l2]] that by simp
  have gt: "moved l l2" if "getSection ?l1 = Throw e l2" for e l2
    using moved_trans [OF m1 moved_getSection [of ?l1 _ l2 e]] that by simp
  have key: "moved l l5"
    if "getSection ?l1 = Ret a l2" "getKey l2 = (k, l3)" "match ''='' (snd (skipWS l3)) = (b, l5)"
    for a l2 k l3 b l5
    using gs [OF that(1)] getKeyD [OF that(2)] moved_skipWS [of l3] matchD [OF that(3)]
    by (blast intro: moved_trans)
  show ?thesis
    unfolding do1_body_def Let_def
  proof (intro thrown_intros, goal_cases)
    case (1 a l2 k l3 aa l5 val l')
    have "moved l l'"
      using key [OF 1(1) 1(4) 1(5)] moved_skipWS [of l5] getValue_moved [of "snd (skipWS l5)" val l'] 1(7)
      by (blast intro: moved_trans)
    from call_Value_rejected [OF this] show ?case
      by (rule thrown_mono) simp
  next
    case (2 a l2 k l3 aa l5 e l')
    have "moved l l'"
      using key [OF 2(1) 2(4) 2(5)] moved_skipWS [of l5] getValue_moved [of "snd (skipWS l5)" _ l' e] 2(7)
      by (blast intro: moved_trans)
    moreover have "at_cursor e l'"
      using getValue_at_cursor [of "snd (skipWS l5)"] 2(7) by simp
    ultimately show ?case by simp
  next
    case 3
    show ?case by simp
  next
    case (4 a l2 k l3 aa l5)
    show ?case
      using key [OF 4(1) 4(4) 4(5)] by (simp add: throw_def throwAt_def at_cursor_def)
  next
    case (5 a l2 k l3 aa l5 found l6)
    have "moved l5 (if found then skip 1 l6 else l6)"
      using skipToD [OF 5(8)] moved_trans [OF skipToD [OF 5(8)] moved_skip] by simp
    then have "moved l (if found then skip 1 l6 else l6)"
      using key [OF 5(1) 5(4) 5(5)] by (blast intro: moved_trans)
    from call_Value_rejected [OF this] show ?case
      by (rule thrown_mono) simp
  next
    case 6
    show ?case by simp
  next
    case (7 a l2)
    show ?case
      using gs [OF 7(1)] by (simp add: throw_def throwAt_def at_cursor_def)
  next
    case 8
    show ?case by simp
  next
    case (9 a l2 sc r l6 aa s err)
    have "moved l (snd (match [CHR 0x0A] (snd (skipWS l2))))"
      using gs [OF 9(1)] moved_skipWS [of l2] moved_match [of "snd (skipWS l2)" "[CHR 0x0A]"]
      by (blast intro: moved_trans)
    then have "sink l6 = sink l"
      using 9(3) by (auto simp add: getRange_def Let_def dest: moved_sink)
    then show ?case
      using 9(4) 9(5) by (auto simp add: throwAt_def rejected_def)
  next
    case 10
    show ?case by simp
  next
    case (11 e l2)
    show ?case
      using gt [OF 11] getSection_at_cursor [of ?l1] 11 by simp
  next
    case 12
    show ?case by simp
  qed
qed


lemma editor_sink_accepts: "\<not> rejected editor_sink l l'"
  by (simp add: rejected_def editor_sink_def as_hook_def split: result.splits)

lemma do1_at_newline:
  assumes "peek l = rune CHR 0x0A"
  shows "do1 H l = Inr (None, skip 1 l)"
proof -
  have ne: "peek l \<noteq> eofRune" using assms by (simp add: eofRune_def)
  then have lt: "index (pos l) < length (input l)" by (rule peek_not_eof)
  have "rune (input l ! index (pos l)) = rune CHR 0x0A"
    using assms lt by (simp add: peek_def)
  then have c: "input l ! index (pos l) = CHR 0x0A"
    by (simp only: of_char_eq_iff)
  have d: "drop (index (pos l)) (input l) = CHR 0x0A # drop (Suc (index (pos l))) (input l)"
    using lt c by (simp add: Cons_nth_drop_Suc [symmetric])
  have ws: "skipWS l = (False, l)"
    by (simp add: skipWS_def skipWhile_def d)
  have gs: "getSection l = Ret None l"
    by (simp add: getSection_def match_def d)
  have st: "snd (skipTo (CHR 0x0A) l) = l"
    by (simp add: skipTo_def IndexByte_def d skip_def)
  show ?thesis
    using assms by (simp add: do1_def do1_body_def Let_def ws gs st isAlpha_iff)
qed




lemma itoa_digit: "n < 10 \<Longrightarrow> itoa n = [char_of (48 + n)]"
  by (subst itoa.simps) simp

lemma digit_chars:
  "char_of (49::nat) = CHR ''1''" "char_of (50::nat) = CHR ''2''"
  "char_of (51::nat) = CHR ''3''" "char_of (52::nat) = CHR ''4''"
  by code_simp+

lemma Done_gap_only:
  "hdone editor_sink \<lparr>StartIndex = 6, EndIndex = 6, PrevEndIndex = 0, Input = ''= foo\<newline>''\<rparr>
     empty_editor =
   Inr \<lparr>fragments = [(0, ''= foo\<newline>'')], nextElement = 1, secEnd = [[] \<mapsto> Some 0],
        vals = Map.empty, lastSec = None\<rparr>"
  by (simp add: editor_sink_def IniEditor_Done_def appendItem_def push_slice_def PushBack_def
        bind_def set_secEnd_def IniSection_String_def empty_editor_def)


text \<open>
  A parse can also end in a runtime panic that \<^verbatim>\<open>do1\<close> does not recover: \<^verbatim>\<open>at\<close> reads one
  byte past the input when a value ends in a carriage return at the end of the input, and
  \<^verbatim>\<open>getSubsection\<close> does when an open quoted subsection ends in an escaped byte.
\<close>

lemma parse_panics_final_CR:
  "map_sum id (\<lambda>r. ()) (NewIniEdit ''f'' (''a=b'' @ [CHR 0x0D])) = Inl IndexOutOfRange"
  by code_simp

lemma parse_panics_open_subsection:
  "map_sum id (\<lambda>r. ()) (NewIniEdit ''f'' (''[a '' @ [CHR 0x22, CHR 0x5C, CHR ''x''])) = Inl IndexOutOfRange"
  by code_simp

text \<open>
  An error that a callback of the sink returns is thrown after the statement has been
  consumed with its newline, so the recovery skips the line that follows as well. A sink
  that keeps the keys it is given and returns an error for one of them shows it: of the
  three lines \<^verbatim>\<open>a = 1\<close>, \<^verbatim>\<open>b = 2\<close>, \<^verbatim>\<open>c = 3\<close> the sink that rejects \<^verbatim>\<open>a\<close> is never given
  \<^verbatim>\<open>b\<close>, while after the parser's own error on a first line \<^verbatim>\<open>= 1\<close> it is given both \<^verbatim>\<open>b\<close>
  and \<^verbatim>\<open>c\<close>.
\<close>

definition key_rejecting_sink :: "string \<Rightarrow> string list IniSink" where
  "key_rejecting_sink bad =
     \<lparr>hValue = (\<lambda>ii seen. HookReturn (if Key ii = bad then Some (BadKey ''bad key'') else None)
                               (seen @ [Key ii])),
      hSection = no_Section, hdone = no_done\<rparr>"

lemma sink_error_skips_next_line:
  "IniParseContents (key_rejecting_sink ''a'') [] ''f'' ''a = 1\<newline>b = 2\<newline>c = 3\<newline>''
     = Inr (Some [\<lparr>File = ''f'', Lineno = 1, Colno = 1, Msg = ''bad key''\<rparr>], [''a'', ''c''])"
  by code_simp

lemma parser_error_keeps_next_line:
  "IniParseContents (key_rejecting_sink ''a'') [] ''f'' ''= 1\<newline>b = 2\<newline>c = 3\<newline>''
     = Inr (Some [\<lparr>File = ''f'', Lineno = 1, Colno = 1, Msg = ''Expected section or key''\<rparr>],
            [''b'', ''c''])"
  by code_simp


text \<open>Three lines with an error each: all three are returned, in the order of the lines.\<close>

abbreviation three_bad_lines :: string where
  "three_bad_lines \<equiv> ''= foo\<newline>[x y\<newline>= bar\<newline>''"

lemma bad_lines_body:
  "do1_body H (newParser s fname three_bad_lines) =
     Throw \<lparr>File = fname, Lineno = 1, Colno = 1, Msg = ''Expected section or key''\<rparr>
       (newParser s fname three_bad_lines)"
  by (simp add: do1_body_def Let_def newParser_def getSection_def cursor_defs
        isAlpha_iff throw_def throwAt_def eofRune_def)

lemma bad_lines_rounds:
  "do1 H (newParser s fname three_bad_lines) =
     Inr (Some \<lparr>File = fname, Lineno = 1, Colno = 1, Msg = ''Expected section or key''\<rparr>,
          (newParser s fname three_bad_lines)\<lparr>pos := \<lparr>index = 5, lineno = 0, colno = 5\<rparr>\<rparr>)"
  "do1 H ((newParser s fname three_bad_lines)\<lparr>pos := \<lparr>index = 5, lineno = 0, colno = 5\<rparr>\<rparr>) =
     Inr (None, (newParser s fname three_bad_lines)\<lparr>pos := \<lparr>index = 6, lineno = 1, colno = 0\<rparr>\<rparr>)"
  "do1 H ((newParser s fname three_bad_lines)\<lparr>pos := \<lparr>index = 6, lineno = 1, colno = 0\<rparr>\<rparr>) =
     Inr (Some \<lparr>File = fname, Lineno = 2, Colno = 4, Msg = ''expected quoted subsection after space''\<rparr>,
          (newParser s fname three_bad_lines)\<lparr>pos := \<lparr>index = 10, lineno = 1, colno = 4\<rparr>\<rparr>)"
  "do1 H ((newParser s fname three_bad_lines)\<lparr>pos := \<lparr>index = 10, lineno = 1, colno = 4\<rparr>\<rparr>) =
     Inr (None, (newParser s fname three_bad_lines)\<lparr>pos := \<lparr>index = 11, lineno = 2, colno = 0\<rparr>\<rparr>)"
  "do1 H ((newParser s fname three_bad_lines)\<lparr>pos := \<lparr>index = 11, lineno = 2, colno = 0\<rparr>\<rparr>) =
     Inr (Some \<lparr>File = fname, Lineno = 3, Colno = 1, Msg = ''Expected section or key''\<rparr>,
          (newParser s fname three_bad_lines)\<lparr>pos := \<lparr>index = 16, lineno = 2, colno = 5\<rparr>\<rparr>)"
  "do1 H ((newParser s fname three_bad_lines)\<lparr>pos := \<lparr>index = 16, lineno = 2, colno = 5\<rparr>\<rparr>) =
     Inr (None, (newParser s fname three_bad_lines)\<lparr>pos := \<lparr>index = 17, lineno = 3, colno = 0\<rparr>\<rparr>)"
  by (simp_all add: do1_def do1_body_def Let_def newParser_def getSection_def cursor_defs
        isAlpha_iff throw_def throwAt_def eofRune_def getSubsection_def isKeyChar_iff)

lemma bad_lines_Done:
  "hdone editor_sink \<lparr>StartIndex = 17, EndIndex = 17, PrevEndIndex = 0, Input = three_bad_lines\<rparr>
     empty_editor =
   Inr \<lparr>fragments = [(0, three_bad_lines)], nextElement = 1, secEnd = [[] \<mapsto> Some 0],
        vals = Map.empty, lastSec = None\<rparr>"
  by (simp add: editor_sink_def IniEditor_Done_def appendItem_def push_slice_def PushBack_def
        bind_def set_secEnd_def IniSection_String_def empty_editor_def)



section \<open>Edit scripts: validation and application\<close>

lemma bind_Returned [simp]: "bind (Returned x ie) f = f x ie"
  by (simp add: bind_def)

lemma bind_Panicked [simp]: "bind (Panicked p ie) f = Panicked p ie"
  by (simp add: bind_def)

lemma bind_assoc: "bind (bind m f) g = bind m (\<lambda>x ie. bind (f x ie) g)"
  by (cases m) simp_all

lemma Apply_loop_snoc:
  "Apply_loop (fs @ [f]) target = bind (Apply_loop fs target) (\<lambda>u t. f t)"
proof (induction fs arbitrary: target)
  case Nil
  show ?case by (cases "f target") simp_all
next
  case (Cons g fs)
  show ?case by (cases "g target") (simp_all add: Cons.IH)
qed

lemma Apply_loop_append:
  "Apply_loop (fs @ gs) target = bind (Apply_loop fs target) (\<lambda>u t. Apply_loop gs t)"
proof (induction fs arbitrary: target)
  case Nil
  show ?case by simp
next
  case (Cons g fs)
  show ?case by (cases "g target") (simp_all add: Cons.IH)
qed

text \<open>The variable arguments of an edit-script call: the subsection, if any, first.\<close>

definition with_subsection :: "string option \<Rightarrow> string list \<Rightarrow> string list" where
  "with_subsection sub args = (case sub of None \<Rightarrow> args | Some a \<Rightarrow> a # args)"

lemma IniEdits_wrong_count:
  "length args \<noteq> 1 \<Longrightarrow> length args \<noteq> 2 \<Longrightarrow> IniEdits_Del ie sc args = (Some ErrInvalidNumArgs, ie)"
  "length args \<noteq> 2 \<Longrightarrow> length args \<noteq> 3 \<Longrightarrow> IniEdits_Set ie sc args = (Some ErrInvalidNumArgs, ie)"
  "length args \<noteq> 2 \<Longrightarrow> length args \<noteq> 3 \<Longrightarrow> IniEdits_Add ie sc args = (Some ErrInvalidNumArgs, ie)"
  by (auto simp add: IniEdits_Del_def IniEdits_Set_def IniEdits_Add_def split: list.splits)

lemma IniEdits_checked:
  "IniEdits_Del ie sc (with_subsection sub [k]) =
     (if IniSection_Valid (Some \<lparr>Section = sc, Subsection = sub\<rparr>)
      then (None, ie @ [IniEditor_Del (Some \<lparr>Section = sc, Subsection = sub\<rparr>) k])
      else (Some ErrInvalidSection, ie))"
  "IniEdits_Set ie sc (with_subsection sub [k, v]) =
     (if IniSection_Valid (Some \<lparr>Section = sc, Subsection = sub\<rparr>)
      then (None, ie @ [IniEditor_Set (Some \<lparr>Section = sc, Subsection = sub\<rparr>) k v])
      else (Some ErrInvalidSection, ie))"
  "IniEdits_Add ie sc (with_subsection sub [k, v]) =
     (if IniSection_Valid (Some \<lparr>Section = sc, Subsection = sub\<rparr>)
      then (None, ie @ [IniEditor_Add (Some \<lparr>Section = sc, Subsection = sub\<rparr>) k v])
      else (Some ErrInvalidSection, ie))"
  by (cases sub; simp add: IniEdits_Del_def IniEdits_Set_def IniEdits_Add_def with_subsection_def)+

lemma ValidIniSection_core: "ValidIniSection ''core''"
  by (simp add: ValidIniSection_chars isKeyChar_iff)

lemma not_ValidIniSection_space: "\<not> ValidIniSection ''a b''"
  by (simp add: ValidIniSection_chars isKeyChar_iff)


lemma IniQKey_bad_key:
  "IniSection_Valid s \<Longrightarrow> \<not> ValidIniKey k \<Longrightarrow> IniQKey s k = Inl (IllegalKey k)"
  by (simp add: IniQKey_def)

lemma edits_panic_on_bad_key:
  assumes "IniSection_Valid s" "\<not> ValidIniKey k"
  shows "IniEditor_Del s k t = Panicked (IllegalKey k) t"
    and "IniEditor_Set s k v t = Panicked (IllegalKey k) t"
    and "IniEditor_Add s k v t = Panicked (IllegalKey k) t"
  using IniQKey_bad_key [OF assms]
  by (simp_all add: IniEditor_Del_def IniEditor_Set_def IniEditor_Add_def)

lemma not_ValidIniKey_examples: "\<not> ValidIniKey ''1bad''" "\<not> ValidIniKey []"
  by (simp_all add: ValidIniKey_def isAlpha_iff)

lemma IniSection_Valid_core: "IniSection_Valid (Some \<lparr>Section = ''core'', Subsection = None\<rparr>)"
  by (simp add: IniSection_Valid_def ValidIniSection_core)

lemma Apply_returns:
  "IniEdits_Apply fs target = (Returned () t1, bs) \<Longrightarrow> Apply_loop fs target = Returned () t1"
  by (auto simp add: IniEdits_Apply_def split: result.splits)

text \<open>
  Claim C7, as amended. A call of \<^verbatim>\<open>Del\<close>, \<^verbatim>\<open>Set\<close> or \<^verbatim>\<open>Add\<close> on a batch with the wrong
  number of variable arguments returns \<^verbatim>\<open>ErrInvalidNumArgs\<close>, and one with the right number
  whose section or subsection is not valid returns \<^verbatim>\<open>ErrInvalidSection\<close>, both with the
  batch as it was; a valid call returns no error and the batch with the operation appended
  (the calls have no editor to change). \<^verbatim>\<open>Apply\<close> of the empty batch returns the target as
  it is. \<^verbatim>\<open>Apply\<close> runs the operations in the order they were appended, each on the target
  the earlier ones left: when the operations \<open>fs\<close> have returned and left \<open>t1\<close> and the next
  operation \<open>g\<close> returns on \<open>t1\<close>, \<^verbatim>\<open>Apply\<close> of \<open>fs\<close> followed by \<open>g\<close> returns what \<open>g\<close> left
  and leaves the batch empty; when \<open>g\<close> panics on \<open>t1\<close>, \<^verbatim>\<open>Apply\<close> panics with that panic
  and the target as \<open>g\<close> left it, the operations after \<open>g\<close> are not run and the batch is
  not cleared.
\<close>

theorem IniEdits_validate_then_queue:
  "(length args \<noteq> 1 \<and> length args \<noteq> 2 \<longrightarrow>
      IniEdits_Del ie sc args = (Some ErrInvalidNumArgs, ie))
   \<and> (length args \<noteq> 2 \<and> length args \<noteq> 3 \<longrightarrow>
      IniEdits_Set ie sc args = (Some ErrInvalidNumArgs, ie)
      \<and> IniEdits_Add ie sc args = (Some ErrInvalidNumArgs, ie))
   \<and> (\<not> IniSection_Valid (Some \<lparr>Section = sc, Subsection = sub\<rparr>) \<longrightarrow>
      IniEdits_Del ie sc (with_subsection sub [k]) = (Some ErrInvalidSection, ie)
      \<and> IniEdits_Set ie sc (with_subsection sub [k, v]) = (Some ErrInvalidSection, ie)
      \<and> IniEdits_Add ie sc (with_subsection sub [k, v]) = (Some ErrInvalidSection, ie))
   \<and> (IniSection_Valid (Some \<lparr>Section = sc, Subsection = sub\<rparr>) \<longrightarrow>
      IniEdits_Del ie sc (with_subsection sub [k])
        = (None, ie @ [IniEditor_Del (Some \<lparr>Section = sc, Subsection = sub\<rparr>) k])
      \<and> IniEdits_Set ie sc (with_subsection sub [k, v])
        = (None, ie @ [IniEditor_Set (Some \<lparr>Section = sc, Subsection = sub\<rparr>) k v])
      \<and> IniEdits_Add ie sc (with_subsection sub [k, v])
        = (None, ie @ [IniEditor_Add (Some \<lparr>Section = sc, Subsection = sub\<rparr>) k v]))
   \<and> IniEdits_Apply [] target = (Returned () target, [])
   \<and> (IniEdits_Apply fs target = (Returned () t1, bs) \<and> g t1 = Returned () t2 \<longrightarrow>
        IniEdits_Apply (fs @ [g]) target = (Returned () t2, []))
   \<and> (IniEdits_Apply fs target = (Returned () t1, bs) \<and> g t1 = Panicked p t2 \<longrightarrow>
        IniEdits_Apply (fs @ g # gs) target = (Panicked p t2, fs @ g # gs))"
proof -
  have a0: "IniEdits_Apply [] target = (Returned () target, [])"
    by (simp add: IniEdits_Apply_def)
  have a1: "IniEdits_Apply fs target = (Returned () t1, bs) \<and> g t1 = Returned () t2 \<longrightarrow>
        IniEdits_Apply (fs @ [g]) target = (Returned () t2, [])"
    using Apply_returns [of fs target t1 bs]
    by (auto simp add: IniEdits_Apply_def Apply_loop_snoc)
  have a2: "IniEdits_Apply fs target = (Returned () t1, bs) \<and> g t1 = Panicked p t2 \<longrightarrow>
        IniEdits_Apply (fs @ g # gs) target = (Panicked p t2, fs @ g # gs)"
    using Apply_returns [of fs target t1 bs]
    by (auto simp add: IniEdits_Apply_def Apply_loop_append)
  show ?thesis
    using a0 a1 a2 by (simp add: IniEdits_wrong_count IniEdits_checked)
qed

abbreviation core_foo_1 :: string where
  "core_foo_1 \<equiv> ''[core]\<newline>'' @ [CHR 0x09] @ ''foo = 1\<newline>''"

lemma Apply_example:
  "(case NewIniEdit ''f'' core_foo_1 of
      Inl p \<Rightarrow> False
    | Inr (eo, ie) \<Rightarrow>
        eo = None \<and>
        (case IniEditor_Set (Some \<lparr>Section = ''core'', Subsection = None\<rparr>) ''foo'' ''2'' ie of
           Panicked p t1 \<Rightarrow> False
         | Returned u t1 \<Rightarrow>
             IniEditor_String t1 = ''[core]\<newline>'' @ [CHR 0x09] @ ''foo = 2\<newline>''
             \<and> (case IniEditor_Del (Some \<lparr>Section = ''core'', Subsection = None\<rparr>) ''foo'' t1 of
                   Panicked p t2 \<Rightarrow> False
                 | Returned u t2 \<Rightarrow> IniEditor_String t2 = ''[core]\<newline>'')))"
  by code_simp

text \<open>
  Claim C7 as stated fails: the call \<^verbatim>\<open>Set(core, 1bad, v)\<close> passes both checks and is
  queued, and \<^verbatim>\<open>Apply\<close> of that batch to the editor of a parsed file does not leave the
  batch empty, because the operation panics on its key.
\<close>

theorem Apply_keeps_batch_counterexample:
  "IniEdits_Set [] ''core'' [''1bad'', ''v'']
     = (None, [IniEditor_Set (Some \<lparr>Section = ''core'', Subsection = None\<rparr>) ''1bad'' ''v''])
   \<and> snd (IniEdits_Apply [IniEditor_Set (Some \<lparr>Section = ''core'', Subsection = None\<rparr>) ''1bad'' ''v'']
            (snd (projr (NewIniEdit ''f'' core_foo_1)))) \<noteq> []"
  using IniEdits_checked(2) [of "[]" "''core''" None "''1bad''" "''v''"]
  by (simp add: with_subsection_def IniSection_Valid_core IniEdits_Apply_def
        edits_panic_on_bad_key [OF IniSection_Valid_core not_ValidIniKey_examples(1)])

theorem IniEdits_validate_then_queue_witness:
  "IniEdits_Del [] ''core'' [] = (Some ErrInvalidNumArgs, [])
   \<and> IniEdits_Set [] ''core'' [''k''] = (Some ErrInvalidNumArgs, [])
   \<and> IniEdits_Add [] ''core'' [''a'', ''b'', ''c'', ''d''] = (Some ErrInvalidNumArgs, [])
   \<and> IniEdits_Set [] ''a b'' [''k'', ''v''] = (Some ErrInvalidSection, [])
   \<and> IniEdits_Set [] ''core'' [''foo'', ''2'']
        = (None, [IniEditor_Set (Some \<lparr>Section = ''core'', Subsection = None\<rparr>) ''foo'' ''2''])
   \<and> (\<exists>ie t1 t2.
        NewIniEdit ''f'' core_foo_1 = Inr (None, ie)
        \<and> IniEdits_Apply [] ie = (Returned () ie, [])
        \<and> IniEdits_Apply [IniEditor_Set (Some \<lparr>Section = ''core'', Subsection = None\<rparr>) ''foo'' ''2''] ie
             = (Returned () t1, [])
        \<and> IniEditor_String t1 = ''[core]\<newline>'' @ [CHR 0x09] @ ''foo = 2\<newline>''
        \<and> IniEdits_Apply [IniEditor_Set (Some \<lparr>Section = ''core'', Subsection = None\<rparr>) ''foo'' ''2'',
                           IniEditor_Del (Some \<lparr>Section = ''core'', Subsection = None\<rparr>) ''foo''] ie
             = (Returned () t2, [])
        \<and> IniEditor_String t2 = ''[core]\<newline>''
        \<and> IniEdits_Apply [IniEditor_Set (Some \<lparr>Section = ''core'', Subsection = None\<rparr>) ''foo'' ''2'',
                           IniEditor_Set (Some \<lparr>Section = ''core'', Subsection = None\<rparr>) ''1bad'' ''v'',
                           IniEditor_Del (Some \<lparr>Section = ''core'', Subsection = None\<rparr>) ''foo''] ie
             = (Panicked (IllegalKey ''1bad'') t1,
                [IniEditor_Set (Some \<lparr>Section = ''core'', Subsection = None\<rparr>) ''foo'' ''2'',
                 IniEditor_Set (Some \<lparr>Section = ''core'', Subsection = None\<rparr>) ''1bad'' ''v'',
                 IniEditor_Del (Some \<lparr>Section = ''core'', Subsection = None\<rparr>) ''foo'']))"
proof -
  let ?core = "Some \<lparr>Section = ''core'', Subsection = None\<rparr>"
  let ?set = "IniEditor_Set ?core ''foo'' ''2''"
  let ?del = "IniEditor_Del ?core ''foo''"
  let ?bad = "IniEditor_Set ?core ''1bad'' ''v''"
  have v: "IniSection_Valid ?core" by (rule IniSection_Valid_core)
  have n: "\<not> IniSection_Valid (Some \<lparr>Section = ''a b'', Subsection = None\<rparr>)"
    by (simp add: IniSection_Valid_def not_ValidIniSection_space)
  have q: "IniEdits_Del [] ''core'' [] = (Some ErrInvalidNumArgs, [])
   \<and> IniEdits_Set [] ''core'' [''k''] = (Some ErrInvalidNumArgs, [])
   \<and> IniEdits_Add [] ''core'' [''a'', ''b'', ''c'', ''d''] = (Some ErrInvalidNumArgs, [])
   \<and> IniEdits_Set [] ''a b'' [''k'', ''v''] = (Some ErrInvalidSection, [])
   \<and> IniEdits_Set [] ''core'' [''foo'', ''2''] = (None, [?set])"
    using IniEdits_validate_then_queue [of "[]" "[]" "''core''" None "''foo''" "''2''"]
      IniEdits_validate_then_queue [of "[''k'']" "[]" "''core''" None "''k''" "''v''"]
      IniEdits_validate_then_queue [of "[''a'', ''b'', ''c'', ''d'']" "[]" "''core''" None "''k''" "''v''"]
      IniEdits_validate_then_queue [of "[]" "[]" "''a b''" None "''k''" "''v''"]
      v n
    by (simp add: with_subsection_def)
  obtain ie where p: "NewIniEdit ''f'' core_foo_1 = Inr (None, ie)"
    using Apply_example by (cases "NewIniEdit ''f'' core_foo_1") auto
  obtain t1 where s1: "?set ie = Returned () t1"
    and w1: "IniEditor_String t1 = ''[core]\<newline>'' @ [CHR 0x09] @ ''foo = 2\<newline>''"
    using Apply_example p by (cases "?set ie") auto
  obtain t2 where s2: "?del t1 = Returned () t2" and w2: "IniEditor_String t2 = ''[core]\<newline>''"
    using Apply_example p s1 by (cases "?del t1") auto
  have s3: "?bad t1 = Panicked (IllegalKey ''1bad'') t1"
    by (rule edits_panic_on_bad_key(2) [OF v not_ValidIniKey_examples(1)])
  have a0: "IniEdits_Apply [] ie = (Returned () ie, [])"
    by (rule IniEdits_validate_then_queue [where target = ie, THEN conjunct2, THEN conjunct2, THEN conjunct2, THEN conjunct2, THEN conjunct1])
  have run: "IniEdits_Apply (fs @ [g]) target = (Returned () u2, [])"
    if "IniEdits_Apply fs target = (Returned () u1, bs)" "g u1 = Returned () u2"
    for fs target u1 bs g u2
    by (rule IniEdits_validate_then_queue [where fs = fs and target = target and ?t1.0 = u1
          and bs = bs and g = g and ?t2.0 = u2, THEN conjunct2, THEN conjunct2, THEN conjunct2, THEN conjunct2,
          THEN conjunct2, THEN conjunct1, THEN mp, OF conjI [OF that]])
  have stop: "IniEdits_Apply (fs @ g # gs) target = (Panicked p u2, fs @ g # gs)"
    if "IniEdits_Apply fs target = (Returned () u1, bs)" "g u1 = Panicked p u2"
    for fs target u1 bs g p u2 gs
    by (rule IniEdits_validate_then_queue [where fs = fs and target = target and ?t1.0 = u1
          and bs = bs and g = g and ?t2.0 = u2 and p = p and gs = gs, THEN conjunct2, THEN conjunct2, THEN conjunct2, THEN conjunct2,
          THEN conjunct2, THEN conjunct2, THEN mp, OF conjI [OF that]])
  have a1: "IniEdits_Apply [?set] ie = (Returned () t1, [])"
    using run [where g = ?set, OF a0 s1] by simp
  have a2: "IniEdits_Apply [?set, ?del] ie = (Returned () t2, [])"
    using run [where g = ?del, OF a1 s2] by simp
  have a3: "IniEdits_Apply [?set, ?bad, ?del] ie = (Panicked (IllegalKey ''1bad'') t1, [?set, ?bad, ?del])"
    using stop [where g = ?bad and gs = "[?del]", OF a1 s3] by simp
  have "\<exists>ie t1 t2.
        NewIniEdit ''f'' core_foo_1 = Inr (None, ie)
        \<and> IniEdits_Apply [] ie = (Returned () ie, [])
        \<and> IniEdits_Apply [?set] ie = (Returned () t1, [])
        \<and> IniEditor_String t1 = ''[core]\<newline>'' @ [CHR 0x09] @ ''foo = 2\<newline>''
        \<and> IniEdits_Apply [?set, ?del] ie = (Returned () t2, [])
        \<and> IniEditor_String t2 = ''[core]\<newline>''
        \<and> IniEdits_Apply [?set, ?bad, ?del] ie = (Panicked (IllegalKey ''1bad'') t1, [?set, ?bad, ?del])"
    by (intro exI [of _ ie] exI [of _ t1] exI [of _ t2] conjI) (fact p a0 a1 w1 a2 w2 a3)+
  with q show ?thesis by (simp only: simp_thms)
qed


lemma Apply_last_panics:
  assumes "\<And>t. f t = Panicked p t"
  shows "\<exists>q t. IniEdits_Apply (ie @ [f]) target = (Panicked q t, ie @ [f])"
    and "Apply_loop ie target = Returned () t' \<Longrightarrow>
         IniEdits_Apply (ie @ [f]) target = (Panicked p t', ie @ [f])"
proof -
  show "\<exists>q t. IniEdits_Apply (ie @ [f]) target = (Panicked q t, ie @ [f])"
    by (cases "Apply_loop ie target") (simp_all add: IniEdits_Apply_def Apply_loop_snoc assms)
  show "Apply_loop ie target = Returned () t' \<Longrightarrow>
         IniEdits_Apply (ie @ [f]) target = (Panicked p t', ie @ [f])"
    by (simp add: IniEdits_Apply_def Apply_loop_snoc assms)
qed



section \<open>Escaping a value and parsing it back\<close>

lemma rune_range: "0 \<le> rune b" "rune b < 256"
proof -
  have "rune b = int (of_char b)" by (rule rune_nat)
  then show "0 \<le> rune b" "rune b < 256"
    using nat_of_char_less_256 [of b] by simp_all
qed

lemma rune_is:
  "rune b = 34 \<longleftrightarrow> b = CHR 0x22"
  "rune b = 92 \<longleftrightarrow> b = CHR 0x5C"
  "rune b = 10 \<longleftrightarrow> b = CHR 0x0A"
  "rune b = 13 \<longleftrightarrow> b = CHR 0x0D"
  "rune b = 35 \<longleftrightarrow> b = CHR ''#''"
  "rune b = 59 \<longleftrightarrow> b = CHR '';''"
  using of_char_eq_iff [of b "CHR 0x22", where ?'a = int]
    of_char_eq_iff [of b "CHR 0x5C", where ?'a = int]
    of_char_eq_iff [of b "CHR 0x0A", where ?'a = int]
    of_char_eq_iff [of b "CHR 0x0D", where ?'a = int]
    of_char_eq_iff [of b "CHR ''#''", where ?'a = int]
    of_char_eq_iff [of b "CHR '';''", where ?'a = int]
  by simp_all

text \<open>One round of the loop of \<^verbatim>\<open>getValue\<close>, by the byte at the cursor.\<close>

lemma getValue_loop_backslash:
  "peek l = 92 \<Longrightarrow> getValue_loop False q ret l = getValue_loop True q ret (skip 1 l)"
  by (subst getValue_loop.simps) (simp add: Let_def)

lemma getValue_loop_quote:
  "peek l = 34 \<Longrightarrow> getValue_loop False q ret l = getValue_loop False (\<not> q) ret (skip 1 l)"
  by (subst getValue_loop.simps) (simp add: Let_def)

lemma getValue_loop_escaped:
  "peek l = 34 \<Longrightarrow> getValue_loop True q ret l = getValue_loop False q (ret @ [CHR 0x22]) (skip 1 l)"
  "peek l = 92 \<Longrightarrow> getValue_loop True q ret l = getValue_loop False q (ret @ [CHR 0x5C]) (skip 1 l)"
  "peek l = 110 \<Longrightarrow> getValue_loop True q ret l = getValue_loop False q (ret @ [CHR 0x0A]) (skip 1 l)"
  "peek l = 116 \<Longrightarrow> getValue_loop True q ret l = getValue_loop False q (ret @ [CHR 0x09]) (skip 1 l)"
  "peek l = 98 \<Longrightarrow> getValue_loop True q ret l = getValue_loop False q (ret @ [CHR 0x08]) (skip 1 l)"
  by (subst getValue_loop.simps, simp add: Let_def char_of_def)+

lemma getValue_loop_plain:
  assumes "peek l = rune b" "b \<noteq> CHR 0x5C" "b \<noteq> CHR 0x22" "b \<noteq> CHR 0x0A"
    and "b = CHR 0x0D \<Longrightarrow> \<exists>nc. at_off 1 l = Inr nc \<and> nc \<noteq> 10"
    and "q \<or> (b \<noteq> CHR ''#'' \<and> b \<noteq> CHR '';'')"
  shows "getValue_loop False q ret l = getValue_loop False q (ret @ [b]) (skip 1 l)"
proof -
  have "at_line_end (rune b) l = Inr False"
    using assms(4,5) by (auto simp add: at_line_end_def rune_is)
  then show ?thesis
    using assms by (subst getValue_loop.simps) (auto simp add: Let_def rune_is)
qed

lemma getValue_loop_end:
  "peek l = 10 \<or> peek l = eofRune \<Longrightarrow> getValue_loop False False ret l = Ret ret (skip 1 l)"
  by (subst getValue_loop.simps) (auto simp add: Let_def at_line_end_def eofRune_def)


text \<open>The cursor of \<open>l\<close> stands after \<open>pre\<close> and before \<open>cs\<close>, which together are the input.\<close>

definition at_text :: "'s iniParse \<Rightarrow> string \<Rightarrow> string \<Rightarrow> bool" where
  "at_text l pre cs \<longleftrightarrow> input l = pre @ cs \<and> index (pos l) = length pre"

lemma at_text_peek: "at_text l pre (b # cs) \<Longrightarrow> peek l = rune b"
  by (simp add: at_text_def peek_def)

lemma at_text_eof: "at_text l pre [] \<Longrightarrow> peek l = eofRune"
  by (simp add: at_text_def peek_def)

lemma at_text_skip: "at_text l pre (b # cs) \<Longrightarrow> at_text (skip 1 l) (pre @ [b]) cs"
  by (simp add: at_text_def index_skip remaining_def)

lemma at_text_next: "at_text l pre (b # c # cs) \<Longrightarrow> at_off 1 l = Inr (rune c)"
proof -
  assume a: "at_text l pre (b # c # cs)"
  have n: "nat (1 + int (length pre)) = length pre + 1" by simp
  have "(pre @ b # c # cs) ! (length pre + 1) = c"
    by (simp only: nth_append_length_plus) simp
  then show ?thesis
    using a by (simp add: at_text_def at_off_def Let_def n del: nth_append_length_plus)
qed

lemma escape_bytes_no_newline:
  "hd (escape_bytes s @ CHR 0x22 # rest) \<noteq> CHR 0x0A"
  by (cases s) simp_all

lemma quoted_body:
  fixes l :: "'s iniParse"
  shows "at_text l pre (escape_bytes s @ CHR 0x22 # rest) \<Longrightarrow>
     \<exists>l'. at_text l' (pre @ escape_bytes s) (CHR 0x22 # rest)
          \<and> getValue_loop False True ret l = getValue_loop False True (ret @ s) l'"
proof (induction s arbitrary: l pre ret)
  case Nil
  then show ?case by auto
next
  case (Cons b s)
  let ?E = "escape_bytes s @ CHR 0x22 # rest"
  show ?case
  proof (cases "b = CHR 0x22 \<or> b = CHR 0x5C \<or> b = CHR 0x08 \<or> b = CHR 0x0A \<or> b = CHR 0x09")
    case True
    then obtain x where x: "escape_bytes (b # s) = CHR 0x5C # x # escape_bytes s"
      and step: "\<And>(l :: 's iniParse) q r. peek l = rune x \<Longrightarrow>
                   getValue_loop True q r l = getValue_loop False q (r @ [b]) (skip 1 l)"
      by (auto simp add: getValue_loop_escaped)
    have a0: "at_text l pre (CHR 0x5C # x # ?E)" using Cons.prems x by simp
    have a1: "at_text (skip 1 l) (pre @ [CHR 0x5C]) (x # ?E)" by (rule at_text_skip [OF a0])
    have a2: "at_text (skip 1 (skip 1 l)) ((pre @ [CHR 0x5C]) @ [x]) ?E"
      by (rule at_text_skip [OF a1])
    have "getValue_loop False True ret l = getValue_loop True True ret (skip 1 l)"
      using at_text_peek [OF a0] by (intro getValue_loop_backslash) simp
    also have "\<dots> = getValue_loop False True (ret @ [b]) (skip 1 (skip 1 l))"
      by (rule step [OF at_text_peek [OF a1]])
    finally have g: "getValue_loop False True ret l
        = getValue_loop False True (ret @ [b]) (skip 1 (skip 1 l))" .
    from Cons.IH [OF a2, of "ret @ [b]"] obtain l' where
      "at_text l' (((pre @ [CHR 0x5C]) @ [x]) @ escape_bytes s) (CHR 0x22 # rest)"
      "getValue_loop False True (ret @ [b]) (skip 1 (skip 1 l))
         = getValue_loop False True ((ret @ [b]) @ s) l'"
      by blast
    then show ?thesis using g x by auto
  next
    case False
    then have x: "escape_bytes (b # s) = b # escape_bytes s" by simp
    have a0: "at_text l pre (b # ?E)" using Cons.prems x by simp
    have a1: "at_text (skip 1 l) (pre @ [b]) ?E" by (rule at_text_skip [OF a0])
    have nx: "\<exists>nc. at_off 1 l = Inr nc \<and> nc \<noteq> 10"
    proof -
      obtain c cs where e: "?E = c # cs" by (cases ?E) simp_all
      have "c \<noteq> CHR 0x0A" using escape_bytes_no_newline [of s rest] e by simp
      then show ?thesis using at_text_next [of l pre b c cs] a0 e by (simp add: rune_is)
    qed
    have g: "getValue_loop False True ret l = getValue_loop False True (ret @ [b]) (skip 1 l)"
      using False nx by (intro getValue_loop_plain [OF at_text_peek [OF a0]]) simp_all
    from Cons.IH [OF a1, of "ret @ [b]"] obtain l' where
      "at_text l' ((pre @ [b]) @ escape_bytes s) (CHR 0x22 # rest)"
      "getValue_loop False True (ret @ [b]) (skip 1 l) = getValue_loop False True ((ret @ [b]) @ s) l'"
      by blast
    then show ?thesis using g x by auto
  qed
qed

text \<open>A byte that \<^verbatim>\<open>needQuotes\<close> lets through unquoted.\<close>

definition plain_byte :: "char \<Rightarrow> bool" where
  "plain_byte c \<longleftrightarrow>
     \<not> ((of_char c :: nat) < of_char CHR '' '' \<or> (of_char c :: nat) \<ge> 0x7f
        \<or> IndexByte [CHR 0x22, CHR ''#'', CHR '';'', CHR 0x5C] c \<noteq> - 1)"

lemma plain_byte_not_special:
  assumes "plain_byte c"
  shows "c \<noteq> CHR 0x22" "c \<noteq> CHR ''#''" "c \<noteq> CHR '';''" "c \<noteq> CHR 0x5C"
    "c \<noteq> CHR 0x0A" "c \<noteq> CHR 0x0D"
  using assms by (auto simp add: plain_byte_def IndexByte_def)

lemma not_needQuotes_plain: "\<not> needQuotes s \<Longrightarrow> list_all plain_byte s"
  by (auto simp add: needQuotes_def plain_byte_def list_ex_iff list_all_iff split: if_splits)

lemma unquoted_body:
  "list_all plain_byte s \<Longrightarrow> at_text l pre (s @ rest) \<Longrightarrow>
     \<exists>l'. at_text l' (pre @ s) rest
          \<and> getValue_loop False False ret l = getValue_loop False False (ret @ s) l'"
proof (induction s arbitrary: l pre ret)
  case Nil
  then show ?case by auto
next
  case (Cons b s)
  have pb: "plain_byte b" and ps: "list_all plain_byte s" using Cons.prems(1) by simp_all
  note ns = plain_byte_not_special [OF pb]
  have a0: "at_text l pre (b # s @ rest)" using Cons.prems(2) by simp
  have a1: "at_text (skip 1 l) (pre @ [b]) (s @ rest)" by (rule at_text_skip [OF a0])
  have g: "getValue_loop False False ret l = getValue_loop False False (ret @ [b]) (skip 1 l)"
    using ns by (intro getValue_loop_plain [OF at_text_peek [OF a0]]) simp_all
  from Cons.IH [OF ps a1, of "ret @ [b]"] obtain l' where
    "at_text l' ((pre @ [b]) @ s) rest"
    "getValue_loop False False (ret @ [b]) (skip 1 l) = getValue_loop False False ((ret @ [b]) @ s) l'"
    by blast
  then show ?case using g by auto
qed

lemma value_end:
  assumes "at_text l pre rest" "rest = [] \<or> hd rest = CHR 0x0A"
  shows "\<exists>l'. getValue_loop False False ret l = Ret ret l'
              \<and> index (pos l') = length pre + (if rest = [] then 0 else 1)"
proof -
  have p: "peek l = 10 \<or> peek l = eofRune"
  proof (cases rest)
    case Nil
    then show ?thesis using at_text_eof assms(1) by blast
  next
    case (Cons c cs)
    then show ?thesis using assms at_text_peek [of l pre c cs] by simp
  qed
  have "index (pos (skip 1 l)) = length pre + (if rest = [] then 0 else 1)"
    using assms(1) by (cases rest) (auto simp add: at_text_def index_skip remaining_def)
  then show ?thesis using getValue_loop_end [OF p] by auto
qed


lemma getValue_Escape:
  fixes l :: "'s iniParse"
  assumes a: "at_text l pre (EscapeIniValue s @ rest)" and r: "rest = [] \<or> hd rest = CHR 0x0A"
  shows "\<exists>l'. getValue l = Ret s l'
              \<and> index (pos l') = length pre + length (EscapeIniValue s) + (if rest = [] then 0 else 1)"
proof (cases "needQuotes s")
  case False
  then have e: "EscapeIniValue s = s" by (simp add: EscapeIniValue_def)
  from unquoted_body [OF not_needQuotes_plain [OF False], of l pre rest "[]"] a e
  obtain l1 where l1: "at_text l1 (pre @ s) rest"
    and g: "getValue_loop False False [] l = getValue_loop False False s l1"
    by auto
  from value_end [OF l1 r, of s] show ?thesis
    using g e by (auto simp add: getValue_def)
next
  case True
  then have e: "EscapeIniValue s = CHR 0x22 # escape_bytes s @ [CHR 0x22]"
    by (simp add: EscapeIniValue_def)
  have a0: "at_text l pre (CHR 0x22 # escape_bytes s @ CHR 0x22 # rest)"
    using a e by simp
  have a1: "at_text (skip 1 l) (pre @ [CHR 0x22]) (escape_bytes s @ CHR 0x22 # rest)"
    by (rule at_text_skip [OF a0])
  have g0: "getValue_loop False False [] l = getValue_loop False True [] (skip 1 l)"
    using getValue_loop_quote [of l False "[]"] at_text_peek [OF a0] by simp
  from quoted_body [OF a1, of "[]"]
  obtain l2 where l2: "at_text l2 ((pre @ [CHR 0x22]) @ escape_bytes s) (CHR 0x22 # rest)"
    and g1: "getValue_loop False True [] (skip 1 l) = getValue_loop False True s l2"
    by auto
  have a3: "at_text (skip 1 l2) (((pre @ [CHR 0x22]) @ escape_bytes s) @ [CHR 0x22]) rest"
    by (rule at_text_skip [OF l2])
  have g2: "getValue_loop False True s l2 = getValue_loop False False s (skip 1 l2)"
    using getValue_loop_quote [of l2 True s] at_text_peek [OF l2] by simp
  from value_end [OF a3 r, of s] show ?thesis
    using g0 g1 g2 e by (auto simp add: getValue_def)
qed

text \<open>
  Claim C2. Where the rest of the input from the cursor is \<^verbatim>\<open>EscapeIniValue(s)\<close> followed by
  the end of the input or by a newline, \<^verbatim>\<open>getValue\<close> returns exactly \<open>s\<close>, with the cursor
  after the escaped text and its newline; this for every byte string \<open>s\<close>. A value that
  starts with a space or a tab is escaped with quotes, and no escaped text starts with a
  byte that \<^verbatim>\<open>skipWS\<close> would skip before the value.
\<close>

theorem getValue_EscapeIniValue:
  "(input l = pre @ EscapeIniValue s @ rest \<and> index (pos l) = length pre
      \<and> (rest = [] \<or> hd rest = CHR 0x0A) \<longrightarrow>
      (\<exists>l'. getValue l = Ret s l'
            \<and> index (pos l') = length pre + length (EscapeIniValue s) + (if rest = [] then 0 else 1)))
   \<and> (s \<noteq> [] \<and> (hd s = CHR '' '' \<or> hd s = CHR 0x09) \<longrightarrow> hd (EscapeIniValue s) = CHR 0x22)
   \<and> (EscapeIniValue s = [] \<or> hd (EscapeIniValue s) \<notin> {CHR '' '', CHR 0x09, CHR 0x0D})"
proof -
  have 1: "input l = pre @ EscapeIniValue s @ rest \<and> index (pos l) = length pre
      \<and> (rest = [] \<or> hd rest = CHR 0x0A) \<longrightarrow>
      (\<exists>l'. getValue l = Ret s l'
            \<and> index (pos l') = length pre + length (EscapeIniValue s) + (if rest = [] then 0 else 1))"
    using getValue_Escape [of l pre s rest] by (simp add: at_text_def)
  have 2: "s \<noteq> [] \<and> (hd s = CHR '' '' \<or> hd s = CHR 0x09) \<longrightarrow> hd (EscapeIniValue s) = CHR 0x22"
    by (auto simp add: EscapeIniValue_def needQuotes_def)
  have 3: "EscapeIniValue s = [] \<or> hd (EscapeIniValue s) \<notin> {CHR '' '', CHR 0x09, CHR 0x0D}"
  proof (cases "needQuotes s")
    case True
    then show ?thesis by (simp add: EscapeIniValue_def)
  next
    case False
    then have "list_all plain_byte s" by (rule not_needQuotes_plain)
    then have "s = [] \<or> plain_byte (hd s)" by (cases s) simp_all
    moreover have "s = [] \<or> hd s \<noteq> CHR '' ''"
      using False by (auto simp add: needQuotes_def split: if_splits)
    ultimately show ?thesis
      using False by (auto simp add: EscapeIniValue_def plain_byte_def)
  qed
  show ?thesis by (intro conjI) (fact 1 2 3)+
qed

theorem getValue_EscapeIniValue_witness:
  "input (newParser () ''f'' (EscapeIniValue '' a#'')) = [] @ EscapeIniValue '' a#'' @ []
   \<and> index (pos (newParser () ''f'' (EscapeIniValue '' a#''))) = length ([] :: string)
   \<and> (\<exists>l'. getValue (newParser () ''f'' (EscapeIniValue '' a#'')) = Ret '' a#'' l')
   \<and> hd (EscapeIniValue '' a#'') = CHR 0x22"
  using getValue_EscapeIniValue [of "newParser () ''f'' (EscapeIniValue '' a#'')" "[]" "'' a#''" "[]"]
  by (auto simp add: newParser_def)

section \<open>The editor built by the parser\<close>

text \<open>
  What holds of every editor that the parser and the edit operations make: the elements
  of the list are distinct and older than \<open>nextElement\<close>; an entry of the key index is a
  list, not empty and without repetition, of elements of the list; no element is under
  two keys; an end marker is an element of the list that is under no key.
\<close>

definition live :: "IniEditor \<Rightarrow> nat option \<Rightarrow> bool" where
  "live ie e \<longleftrightarrow> (\<exists>h. e = Some h \<and> h \<in> set (elements ie))"

definition keyed :: "IniEditor \<Rightarrow> nat option \<Rightarrow> bool" where
  "keyed ie e \<longleftrightarrow> (\<exists>k vs. vals ie k = Some vs \<and> e \<in> set vs)"

definition editor_inv :: "IniEditor \<Rightarrow> bool" where
  "editor_inv ie \<longleftrightarrow>
     distinct (elements ie)
     \<and> (\<forall>h \<in> set (elements ie). h < nextElement ie)
     \<and> (\<forall>k vs. vals ie k = Some vs \<longrightarrow> vs \<noteq> [] \<and> distinct vs \<and> (\<forall>e \<in> set vs. live ie e))
     \<and> (\<forall>k k' vs vs'. vals ie k = Some vs \<and> vals ie k' = Some vs' \<and> k \<noteq> k'
            \<longrightarrow> set vs \<inter> set vs' = {})
     \<and> (\<forall>s e. secEnd ie s = Some e \<longrightarrow> live ie e \<and> \<not> keyed ie e)"

lemma editor_inv_empty: "editor_inv empty_editor"
  by (simp add: editor_inv_def empty_editor_def elements_def)

lemma new_not_keyed:
  "editor_inv ie \<Longrightarrow> nextElement ie \<le> h \<Longrightarrow> \<not> keyed ie (Some h)"
  by (fastforce simp add: editor_inv_def keyed_def live_def)

lemma new_not_marker:
  "editor_inv ie \<Longrightarrow> nextElement ie \<le> h \<Longrightarrow> secEnd ie s \<noteq> Some (Some h)"
  by (fastforce simp add: editor_inv_def live_def)

lemma editor_inv_PushBack:
  assumes "editor_inv ie"
  shows "editor_inv (snd (PushBack v ie))"
  using assms
  by (fastforce simp add: editor_inv_def PushBack_def elements_def live_def keyed_def)

lemma editor_inv_add_val:
  assumes inv: "editor_inv ie" and h: "h \<in> set (elements ie)"
    and nk: "\<not> keyed ie (Some h)" and nm: "\<forall>s. secEnd ie s \<noteq> Some (Some h)"
  shows "editor_inv (ie\<lparr>vals := (vals ie)(k \<mapsto> values_at ie k @ [Some h])\<rparr>)"
proof -
  let ?ie = "ie\<lparr>vals := (vals ie)(k \<mapsto> values_at ie k @ [Some h])\<rparr>"
  have el: "elements ?ie = elements ie" by (simp add: elements_def)
  have lv: "live ?ie e = live ie e" for e by (simp add: live_def el)
  have old: "set (values_at ie k) \<subseteq> {e. keyed ie e} \<and> distinct (values_at ie k)
    \<and> (\<forall>e \<in> set (values_at ie k). live ie e)"
  proof (cases "vals ie k")
    case None
    then show ?thesis by (simp add: values_at_def)
  next
    case (Some vs0)
    then have "distinct vs0 \<and> (\<forall>e \<in> set vs0. live ie e)"
      using inv unfolding editor_inv_def by blast
    then show ?thesis using Some by (auto simp add: values_at_def keyed_def)
  qed
  have 3: "\<forall>k' vs. vals ?ie k' = Some vs \<longrightarrow> vs \<noteq> [] \<and> distinct vs \<and> (\<forall>e \<in> set vs. live ?ie e)"
    using inv old nk h by (auto simp add: editor_inv_def live_def el)
  have 4: "\<forall>k1 k2 vs vs'. vals ?ie k1 = Some vs \<and> vals ?ie k2 = Some vs' \<and> k1 \<noteq> k2
            \<longrightarrow> set vs \<inter> set vs' = {}"
  proof (intro allI impI, elim conjE)
    fix k1 k2 vs vs'
    assume a: "vals ?ie k1 = Some vs" "vals ?ie k2 = Some vs'" "k1 \<noteq> k2"
    have d: "vals ie a = Some xs \<Longrightarrow> vals ie b = Some ys \<Longrightarrow> a \<noteq> b \<Longrightarrow> set xs \<inter> set ys = {}"
      for a b xs ys
      using inv unfolding editor_inv_def by blast
    have o: "vals ie a = Some xs \<Longrightarrow> a \<noteq> k \<Longrightarrow> set xs \<inter> set (values_at ie k) = {}" for a xs
      using d [of a xs k] by (cases "vals ie k") (auto simp add: values_at_def)
    have n: "vals ie a = Some xs \<Longrightarrow> Some h \<notin> set xs" for a xs
      using nk by (auto simp add: keyed_def)
    show "set vs \<inter> set vs' = {}"
    proof (cases "k1 = k")
      case True
      then have "vs = values_at ie k @ [Some h]" and "vals ie k2 = Some vs'" "k2 \<noteq> k"
        using a by (auto split: if_splits)
      then show ?thesis using o [of k2 vs'] n [of k2 vs'] by auto
    next
      case False
      show ?thesis
      proof (cases "k2 = k")
        case True
        then have "vs' = values_at ie k @ [Some h]" and "vals ie k1 = Some vs"
          using a False by (auto split: if_splits)
        then show ?thesis using o [of k1 vs] n [of k1 vs] False by auto
      next
        case k2: False
        then show ?thesis using a False d [of k1 vs k2 vs'] by simp
      qed
    qed
  qed
  have 5: "\<forall>s e. secEnd ?ie s = Some e \<longrightarrow> live ?ie e \<and> \<not> keyed ?ie e"
  proof (intro allI impI)
    fix s e
    assume "secEnd ?ie s = Some e"
    then have s: "secEnd ie s = Some e" by simp
    then have le: "live ie e" and ke: "\<not> keyed ie e"
      using inv unfolding editor_inv_def by blast+
    have "e \<noteq> Some h" using nm s by auto
    then have "\<not> keyed ?ie e"
      using ke by (cases "vals ie k") (auto simp add: keyed_def values_at_def split: if_splits)
    then show "live ?ie e \<and> \<not> keyed ?ie e" using le lv by simp
  qed
  show ?thesis
    unfolding editor_inv_def
    using inv 3 4 5 unfolding el by (simp add: editor_inv_def)
qed

lemma editor_inv_set_secEnd:
  assumes inv: "editor_inv ie" and h: "h \<in> set (elements ie)" and nk: "\<not> keyed ie (Some h)"
  shows "editor_inv (ie\<lparr>secEnd := (secEnd ie)(s \<mapsto> Some h), lastSec := x\<rparr>)"
  using assms by (auto simp add: editor_inv_def elements_def live_def keyed_def)


text \<open>
  \<open>grown ie ie'\<close>: \<open>ie'\<close> is \<open>ie\<close> with new elements pushed at the back and the indices
  untouched.
\<close>

definition grown :: "IniEditor \<Rightarrow> IniEditor \<Rightarrow> bool" where
  "grown ie ie' \<longleftrightarrow>
     vals ie' = vals ie \<and> secEnd ie' = secEnd ie \<and> lastSec ie' = lastSec ie
     \<and> nextElement ie \<le> nextElement ie' \<and> set (elements ie) \<subseteq> set (elements ie')"

lemma grown_refl [simp]: "grown ie ie"
  by (simp add: grown_def)

lemma grown_trans: "grown a b \<Longrightarrow> grown b c \<Longrightarrow> grown a c"
  by (auto simp add: grown_def)

lemma PushBack_grown:
  "PushBack v ie = (e, ie') \<Longrightarrow>
     grown ie ie' \<and> WriteTo ie' = WriteTo ie @ v
     \<and> (\<exists>h. e = Some h \<and> h \<in> set (elements ie') \<and> nextElement ie \<le> h)"
  by (auto simp add: PushBack_def grown_def WriteTo_def elements_def)

lemma push_slice_grown:
  assumes "b \<le> length inp" "push_slice inp a b ie = Returned e ie'"
  shows "grown ie ie' \<and> WriteTo ie' = WriteTo ie @ take (b - a) (drop a inp)
     \<and> (\<exists>h. e = Some h \<and> h \<in> set (elements ie') \<and> nextElement ie \<le> h)
     \<and> (editor_inv ie \<longrightarrow> editor_inv ie')"
proof -
  have p: "PushBack (take (b - a) (drop a inp)) ie = (e, ie')"
    using assms by (simp add: push_slice_def split: prod.splits)
  have "editor_inv ie \<longrightarrow> editor_inv ie'"
    using editor_inv_PushBack [of ie "take (b - a) (drop a inp)"] p by simp
  then show ?thesis using PushBack_grown [OF p] by simp
qed

lemma push_slice_returns:
  "b \<le> length inp \<Longrightarrow> \<exists>e ie'. push_slice inp a b ie = Returned e ie'"
  by (simp add: push_slice_def split: prod.splits)

lemma take_take_drop:
  "a \<le> b \<Longrightarrow> take a xs @ take (b - a) (drop a xs) = take b xs"
  using take_add [of a "b - a" xs] by simp

text \<open>
  \<^verbatim>\<open>appendItem\<close> on a range that lies in its input, after an editor that holds the input
  up to the range's \<open>PrevEndIndex\<close>.
\<close>

lemma appendItem_grown:
  assumes r: "PrevEndIndex r \<le> StartIndex r" "StartIndex r \<le> EndIndex r"
      "EndIndex r \<le> length (Input r)"
    and w: "WriteTo ie = take (PrevEndIndex r) (Input r)"
    and a: "appendItem r ie = Returned (e1, e2) ie'"
  shows "grown ie ie'" and "WriteTo ie' = take (EndIndex r) (Input r)"
    and "editor_inv ie \<Longrightarrow> editor_inv ie'"
    and "StartIndex r < EndIndex r \<Longrightarrow> \<exists>h. e2 = Some h \<and> h \<in> set (elements ie') \<and> nextElement ie \<le> h"
    and "PrevEndIndex r < EndIndex r \<Longrightarrow> \<exists>h. e1 = Some h \<and> h \<in> set (elements ie') \<and> nextElement ie \<le> h"
    and "PrevEndIndex r = EndIndex r \<Longrightarrow> e1 = None \<and> ie' = ie"
proof -
  let ?inp = "Input r"
  have sl: "StartIndex r \<le> length ?inp" using r by simp
  obtain x1 ie1 where s1: "(if StartIndex r > PrevEndIndex r
           then push_slice ?inp (PrevEndIndex r) (StartIndex r) ie
           else Returned None ie) = Returned x1 ie1"
    using push_slice_returns [OF sl, of "PrevEndIndex r" ie] by (cases "StartIndex r > PrevEndIndex r") auto
  obtain x2 ie2 where s2: "(if EndIndex r > StartIndex r
                then push_slice ?inp (StartIndex r) (EndIndex r) ie1
                else Returned None ie1) = Returned x2 ie2"
    using push_slice_returns [OF r(3), of "StartIndex r" ie1] by (cases "EndIndex r > StartIndex r") auto
  have res: "e1 = (if x1 = None then x2 else x1)" "e2 = x2" "ie' = ie2"
    using a s1 s2 by (simp_all add: appendItem_def)
  have g1: "grown ie ie1" and w1: "WriteTo ie1 = take (StartIndex r) ?inp"
    and i1: "editor_inv ie \<Longrightarrow> editor_inv ie1"
    and n1: "PrevEndIndex r < StartIndex r \<Longrightarrow> \<exists>h. x1 = Some h \<and> h \<in> set (elements ie1) \<and> nextElement ie \<le> h"
    and z1: "PrevEndIndex r = StartIndex r \<Longrightarrow> x1 = None \<and> ie1 = ie"
    using s1 push_slice_grown [OF sl, of "PrevEndIndex r" ie x1 ie1] w r(1)
    by (auto simp add: take_take_drop split: if_splits)
  have g2: "grown ie1 ie2" and w2: "WriteTo ie2 = take (EndIndex r) ?inp"
    and i2: "editor_inv ie1 \<Longrightarrow> editor_inv ie2"
    and n2: "StartIndex r < EndIndex r \<Longrightarrow> \<exists>h. x2 = Some h \<and> h \<in> set (elements ie2) \<and> nextElement ie1 \<le> h"
    and z2: "StartIndex r = EndIndex r \<Longrightarrow> x2 = None \<and> ie2 = ie1"
    using s2 push_slice_grown [OF r(3), of "StartIndex r" ie1 x2 ie2] w1 r(2)
    by (auto simp add: take_take_drop split: if_splits)
  show "grown ie ie'" using g1 g2 res by (auto intro: grown_trans)
  show "WriteTo ie' = take (EndIndex r) (Input r)" using w2 res by simp
  show "editor_inv ie \<Longrightarrow> editor_inv ie'" using i1 i2 res by simp
  show "StartIndex r < EndIndex r \<Longrightarrow> \<exists>h. e2 = Some h \<and> h \<in> set (elements ie') \<and> nextElement ie \<le> h"
    using n2 g1 res by (auto simp add: grown_def)
  show "PrevEndIndex r < EndIndex r \<Longrightarrow> \<exists>h. e1 = Some h \<and> h \<in> set (elements ie') \<and> nextElement ie \<le> h"
  proof -
    assume lt: "PrevEndIndex r < EndIndex r"
    show ?thesis
    proof (cases "PrevEndIndex r < StartIndex r")
      case True
      from n1 [OF True] show ?thesis using g2 res by (auto simp add: grown_def)
    next
      case False
      then have "PrevEndIndex r = StartIndex r" using r(1) by simp
      then show ?thesis using z1 n2 lt res by auto
    qed
  qed
  show "PrevEndIndex r = EndIndex r \<Longrightarrow> e1 = None \<and> ie' = ie"
    using z1 z2 r res by auto
qed

lemma appendItem_returns:
  assumes "StartIndex r \<le> length (Input r)" "EndIndex r \<le> length (Input r)"
  shows "\<exists>e1 e2 ie'. appendItem r ie = Returned (e1, e2) ie'"
proof -
  obtain x1 ie1 where s1: "(if StartIndex r > PrevEndIndex r
           then push_slice (Input r) (PrevEndIndex r) (StartIndex r) ie
           else Returned None ie) = Returned x1 ie1"
    using push_slice_returns [OF assms(1), of "PrevEndIndex r" ie]
    by (cases "StartIndex r > PrevEndIndex r") auto
  obtain x2 ie2 where s2: "(if EndIndex r > StartIndex r
                then push_slice (Input r) (StartIndex r) (EndIndex r) ie1
                else Returned None ie1) = Returned x2 ie2"
    using push_slice_returns [OF assms(2), of "StartIndex r" ie1]
    by (cases "EndIndex r > StartIndex r") auto
  show ?thesis using s1 s2 by (simp add: appendItem_def)
qed


lemma grown_keyed: "grown ie ie' \<Longrightarrow> keyed ie' e = keyed ie e"
  by (simp add: grown_def keyed_def)

lemma set_secEnd_inv:
  assumes inv: "editor_inv ie1" and h: "h \<in> set (elements ie1)" and nk: "\<not> keyed ie1 (Some h)"
    and s: "set_secEnd (Some h) x ie1 = Returned u ie'"
  shows "editor_inv ie' \<and> WriteTo ie' = WriteTo ie1"
proof (cases "IniSection_String (lastSec ie1)")
  case (Inl p)
  then show ?thesis using s by (simp add: set_secEnd_def)
next
  case (Inr ss)
  then have "ie' = ie1\<lparr>secEnd := (secEnd ie1)(ss \<mapsto> Some h), lastSec := x\<rparr>"
    using s by (simp add: set_secEnd_def)
  then show ?thesis
    using editor_inv_set_secEnd [OF inv h nk, where s = ss and x = x] by (simp add: WriteTo_def)
qed

lemma Section_hook:
  assumes r: "PrevEndIndex r \<le> StartIndex r" "StartIndex r < EndIndex r"
      "EndIndex r \<le> length (Input r)"
    and w: "WriteTo ie = take (PrevEndIndex r) (Input r)" and inv: "editor_inv ie"
    and a: "IniEditor_Section \<lparr>ssSection = sc, ssRange = r\<rparr> ie = Returned u ie'"
  shows "editor_inv ie' \<and> WriteTo ie' = take (EndIndex r) (Input r)"
proof -
  have r2: "StartIndex r \<le> EndIndex r" "StartIndex r \<le> length (Input r)"
    "PrevEndIndex r < EndIndex r" using r by simp_all
  obtain e1 e2 ie1 where ap: "appendItem r ie = Returned (e1, e2) ie1"
    using appendItem_returns [OF r2(2) r(3)] by blast
  note g = appendItem_grown [OF r(1) r2(1) r(3) w ap]
  from g(5) [OF r2(3)] obtain h where h: "e1 = Some h" "h \<in> set (elements ie1)" "nextElement ie \<le> h"
    by blast
  have nk: "\<not> keyed ie1 (Some h)"
    using new_not_keyed [OF inv h(3)] grown_keyed [OF g(1)] by simp
  have "set_secEnd (Some h) (Some sc) ie1 = Returned u ie'"
    using a ap h(1) by (simp add: IniEditor_Section_def)
  from set_secEnd_inv [OF g(3) [OF inv] h(2) nk this] show ?thesis using g(2) by simp
qed

lemma Item_hook:
  assumes r: "PrevEndIndex r \<le> StartIndex r" "StartIndex r < EndIndex r"
      "EndIndex r \<le> length (Input r)"
    and w: "WriteTo ie = take (PrevEndIndex r) (Input r)" and inv: "editor_inv ie"
    and a: "IniEditor_Item \<lparr>iiSection = sc, Key = k, Val = v, iiRange = r\<rparr> ie = Returned u ie'"
  shows "editor_inv ie' \<and> WriteTo ie' = take (EndIndex r) (Input r)"
proof -
  have r2: "StartIndex r \<le> EndIndex r" "StartIndex r \<le> length (Input r)" using r by simp_all
  obtain qk where qk: "IniQKey sc k = Inr qk"
    using a by (cases "IniQKey sc k") (simp_all add: IniEditor_Item_def)
  obtain e1 e2 ie1 where ap: "appendItem r ie = Returned (e1, e2) ie1"
    using appendItem_returns [OF r2(2) r(3)] by blast
  note g = appendItem_grown [OF r(1) r2(1) r(3) w ap]
  from g(4) [OF r(2)] obtain h where h: "e2 = Some h" "h \<in> set (elements ie1)" "nextElement ie \<le> h"
    by blast
  have nk: "\<not> keyed ie1 (Some h)"
    using new_not_keyed [OF inv h(3)] grown_keyed [OF g(1)] by simp
  have nm: "\<forall>s. secEnd ie1 s \<noteq> Some (Some h)"
    using new_not_marker [OF inv h(3)] g(1) by (simp add: grown_def)
  have "ie' = ie1\<lparr>vals := (vals ie1)(qk \<mapsto> values_at ie1 qk @ [Some h])\<rparr>"
    using a ap h(1) qk by (simp add: IniEditor_Item_def)
  then show ?thesis
    using editor_inv_add_val [OF g(3) [OF inv] h(2) nk nm, of qk] g(2) by (simp add: WriteTo_def)
qed

lemma Done_hook:
  assumes r: "PrevEndIndex r \<le> StartIndex r" "StartIndex r = EndIndex r"
      "EndIndex r \<le> length (Input r)"
    and w: "WriteTo ie = take (PrevEndIndex r) (Input r)" and inv: "editor_inv ie"
    and a: "IniEditor_Done r ie = Returned u ie'"
  shows "editor_inv ie' \<and> WriteTo ie' = take (EndIndex r) (Input r)"
proof -
  have r2: "StartIndex r \<le> EndIndex r" "StartIndex r \<le> length (Input r)" using r by simp_all
  obtain e1 e2 ie1 where ap: "appendItem r ie = Returned (e1, e2) ie1"
    using appendItem_returns [OF r2(2) r(3)] by blast
  note g = appendItem_grown [OF r(1) r2(1) r(3) w ap]
  obtain e ie2 where p: "(if e1 = None then PushBack [] ie1 else (e1, ie1)) = (e, ie2)"
    by (cases "if e1 = None then PushBack [] ie1 else (e1, ie1)")
  have s: "set_secEnd e None ie2 = Returned u ie'"
    using a ap p by (simp add: IniEditor_Done_def)
  have i1: "editor_inv ie1" by (rule g(3) [OF inv])
  have "\<exists>h. e = Some h \<and> h \<in> set (elements ie2) \<and> nextElement ie \<le> h"
    and g2: "grown ie1 ie2" and w2: "WriteTo ie2 = WriteTo ie1" and i2: "editor_inv ie2"
  proof -
    show "\<exists>h. e = Some h \<and> h \<in> set (elements ie2) \<and> nextElement ie \<le> h"
    proof (cases "e1 = None")
      case True
      then have "PushBack [] ie1 = (e, ie2)" using p by simp
      from PushBack_grown [OF this] show ?thesis using g(1) by (auto simp add: grown_def)
    next
      case False
      then have lt: "PrevEndIndex r < EndIndex r" using g(6) r by (cases "PrevEndIndex r = EndIndex r") auto
      from g(5) [OF lt] show ?thesis using p False by auto
    qed
    show "grown ie1 ie2" "WriteTo ie2 = WriteTo ie1" "editor_inv ie2"
    proof -
      have "grown ie1 ie2 \<and> WriteTo ie2 = WriteTo ie1 \<and> editor_inv ie2"
      proof (cases "e1 = None")
        case True
        then have pb: "PushBack [] ie1 = (e, ie2)" using p by simp
        then have "editor_inv ie2" using editor_inv_PushBack [OF i1, of "[]"] by simp
        then show ?thesis using PushBack_grown [OF pb] by simp
      next
        case False
        then have "ie2 = ie1" using p by auto
        then show ?thesis using i1 by simp
      qed
      then show "grown ie1 ie2" "WriteTo ie2 = WriteTo ie1" "editor_inv ie2" by simp_all
    qed
  qed
  then obtain h where h: "e = Some h" "h \<in> set (elements ie2)" "nextElement ie \<le> h" by blast
  have nk: "\<not> keyed ie2 (Some h)"
    using new_not_keyed [OF inv h(3)] grown_keyed [OF g(1)] grown_keyed [OF g2] by simp
  from set_secEnd_inv [OF i2 h(2) nk] s h(1) show ?thesis using g(2) w2 by simp
qed

text \<open>
  What holds between two statements of a parse into the editor: the fragments are the
  input up to \<open>prevEnd\<close>, which is not past the cursor.
\<close>

definition parse_inv :: "IniEditor iniParse \<Rightarrow> bool" where
  "parse_inv l \<longleftrightarrow>
     prevEnd l \<le> index (pos l) \<and> index (pos l) \<le> length (input l)
     \<and> WriteTo (sink l) = take (prevEnd l) (input l) \<and> editor_inv (sink l)"

lemma as_hook_Returned: "as_hook m = HookReturn eo s \<Longrightarrow> m = Returned () s"
  by (cases m) (simp_all add: as_hook_def)

lemma parse_inv_stepped:
  assumes inv: "parse_inv l" and st: "stepped editor_sink l l'"
  shows "parse_inv l'"
proof -
  have adv: "input l' = input l" "index (pos l) \<le> index (pos l')"
    "index (pos l') \<le> length (input l)"
    using st inv by (auto simp add: stepped_def advanced_def parse_inv_def)
  consider (same) "prevEnd l' = prevEnd l" "sink l' = sink l" | (hook) "hook_called editor_sink l l'"
    using st by (auto simp add: stepped_def)
  then show ?thesis
  proof cases
    case same
    then show ?thesis using inv adv by (simp add: parse_inv_def)
  next
    case hook
    let ?r = "\<lparr>StartIndex = index (pos l), EndIndex = prevEnd l', PrevEndIndex = prevEnd l,
                Input = input l\<rparr>"
    have b: "index (pos l) < prevEnd l'" "prevEnd l' \<le> index (pos l')"
      using hook by (simp_all add: hook_called_def)
    have r: "PrevEndIndex ?r \<le> StartIndex ?r" "StartIndex ?r < EndIndex ?r"
      "EndIndex ?r \<le> length (Input ?r)"
      using inv b adv by (simp_all add: parse_inv_def)
    have w: "WriteTo (sink l) = take (PrevEndIndex ?r) (Input ?r)" and i: "editor_inv (sink l)"
      using inv by (simp_all add: parse_inv_def)
    from hook consider
      (sec) sc where "IniEditor_Section \<lparr>ssSection = sc, ssRange = ?r\<rparr> (sink l) = Returned () (sink l')"
      | (item) sc k v where "IniEditor_Item \<lparr>iiSection = sc, Key = k, Val = v, iiRange = ?r\<rparr> (sink l)
                               = Returned () (sink l')"
      unfolding hook_called_def Let_def editor_sink_def
      by (auto dest!: as_hook_Returned)
    then have "editor_inv (sink l') \<and> WriteTo (sink l') = take (EndIndex ?r) (Input ?r)"
    proof cases
      case sec
      from Section_hook [OF r w i this] show ?thesis .
    next
      case item
      from Item_hook [OF r w i this] show ?thesis .
    qed
    then show ?thesis using b adv by (simp add: parse_inv_def)
  qed
qed

lemma parse_inv_do_loop:
  "parse_inv l \<Longrightarrow> do_loop editor_sink l err = Inr (l', err') \<Longrightarrow> parse_inv l'"
proof (induction "remaining l" arbitrary: l err rule: less_induct)
  case less
  show ?case
  proof (cases "0 < remaining l")
    case False
    then show ?thesis using less.prems by (simp add: do_loop_stop)
  next
    case True
    show ?thesis
    proof (cases "do1 editor_sink l")
      case (Inl p)
      then show ?thesis using less.prems True by (simp add: do_loop_crash)
    next
      case (Inr x)
      obtain e l1 where x: "x = (e, l1)" by (cases x)
      have d: "do1 editor_sink l = Inr (e, l1)" using Inr x by simp
      have lt: "index (pos l) < length (input l)" using True by (simp add: remaining_def)
      have "stepped editor_sink l l1" using do1_stepped [OF lt d] by simp
      then have i1: "parse_inv l1" by (rule parse_inv_stepped [OF less.prems(1)])
      have "do_loop editor_sink l1 (case e of None \<Rightarrow> err | Some pe \<Rightarrow> err @ [pe]) = Inr (l', err')"
        using less.prems(2) do_loop_step [OF True d] by simp
      from less.hyps [OF do1_remaining [OF True d] i1 this] show ?thesis .
    qed
  qed
qed

lemma NewIniEdit_result:
  assumes "NewIniEdit fname contents = Inr (eo, ie)"
  shows "WriteTo ie = contents \<and> editor_inv ie"
proof -
  let ?l0 = "newParser empty_editor fname contents"
  have i0: "parse_inv ?l0"
    by (simp add: parse_inv_def newParser_def editor_inv_empty) (simp add: WriteTo_def empty_editor_def)
  obtain l1 errs where dl: "do_loop editor_sink ?l0 [] = Inr (l1, errs)"
    using assms by (auto simp add: NewIniEdit_def IniParseContents_def do_parse_def split: sum.splits)
  have i1: "parse_inv l1" by (rule parse_inv_do_loop [OF i0 dl])
  have e1: "index (pos l1) = length contents" "input l1 = contents"
    using do_loop_end [OF dl] i1 by (auto simp add: parse_inv_def remaining_def newParser_def)
  let ?r = "\<lparr>StartIndex = index (pos l1), EndIndex = index (pos l1), PrevEndIndex = prevEnd l1,
              Input = input l1\<rparr>"
  have d: "IniEditor_Done ?r (sink l1) = Returned () ie"
    using assms dl
    by (auto simp add: NewIniEdit_def IniParseContents_def do_parse_def getRange_def Let_def
          editor_sink_def split: sum.splits result.splits)
  have r: "PrevEndIndex ?r \<le> StartIndex ?r" "StartIndex ?r = EndIndex ?r"
    "EndIndex ?r \<le> length (Input ?r)"
    using i1 by (simp_all add: parse_inv_def)
  have w: "WriteTo (sink l1) = take (PrevEndIndex ?r) (Input ?r)" and i: "editor_inv (sink l1)"
    using i1 by (simp_all add: parse_inv_def)
  from Done_hook [OF r w i d] show ?thesis using e1 by simp
qed


text \<open>
  Claim C1. When \<^verbatim>\<open>NewIniEdit\<close> returns (with no parse error, \<open>eo = None\<close>, or with some), the
  editor's \<^verbatim>\<open>String\<close> is the input byte for byte: the gap and statement fragments that
  the \<^verbatim>\<open>Section\<close>, \<^verbatim>\<open>Item\<close> and \<^verbatim>\<open>Done\<close> hooks appended, concatenated in order, are the
  input.
\<close>

theorem round_trip:
  "NewIniEdit fname contents = Inr (eo, ie) \<longrightarrow>
     IniEditor_String ie = contents \<and> concat (map snd (fragments ie)) = contents"
  using NewIniEdit_result [of fname contents eo ie]
  by (auto simp add: IniEditor_String_def WriteTo_def)

lemma parse_core_foo:
  "map_sum id fst (NewIniEdit ''f'' (''[core]\<newline>'' @ [CHR 0x09] @ ''foo = 1\<newline>'')) = Inr None"
  by code_simp

theorem round_trip_witness:
  "\<exists>ie. NewIniEdit ''f'' (''[core]\<newline>'' @ [CHR 0x09] @ ''foo = 1\<newline>'') = Inr (None, ie)
        \<and> IniEditor_String ie = ''[core]\<newline>'' @ [CHR 0x09] @ ''foo = 1\<newline>''"
proof -
  obtain ie where p: "NewIniEdit ''f'' (''[core]\<newline>'' @ [CHR 0x09] @ ''foo = 1\<newline>'') = Inr (None, ie)"
    using parse_core_foo
    by (cases "NewIniEdit ''f'' (''[core]\<newline>'' @ [CHR 0x09] @ ''foo = 1\<newline>'')") auto
  from round_trip [of "''f''" "''[core]\<newline>'' @ [CHR 0x09] @ ''foo = 1\<newline>''" None ie] p
  show ?thesis by blast
qed

lemma remove_element_filter:
  "distinct (map fst fs) \<Longrightarrow> remove_element h fs = filter (\<lambda>f. fst f \<noteq> h) fs"
proof (induction fs)
  case Nil
  show ?case by simp
next
  case (Cons f fs)
  show ?case
  proof (cases "fst f = h")
    case True
    then have "h \<notin> fst ` set fs" using Cons.prems by auto
    then have "filter (\<lambda>f. fst f \<noteq> h) fs = fs" by (auto simp add: filter_id_conv)
    then show ?thesis using True by simp
  next
    case False
    then show ?thesis using Cons by simp
  qed
qed

lemma Remove_each_filter:
  "\<forall>e \<in> set vs. e \<noteq> None \<Longrightarrow> distinct (elements ie) \<Longrightarrow>
     Remove_each vs ie =
       Returned () (ie\<lparr>fragments := filter (\<lambda>f. Some (fst f) \<notin> set vs) (fragments ie)\<rparr>)"
proof (induction vs arbitrary: ie)
  case Nil
  show ?case by simp
next
  case (Cons e vs)
  then obtain h where h: "e = Some h" by auto
  let ?ie1 = "ie\<lparr>fragments := filter (\<lambda>f. fst f \<noteq> h) (fragments ie)\<rparr>"
  have r: "Remove e ie = Returned () ?ie1"
    using Cons.prems(2) h by (simp add: Remove_def remove_element_filter elements_def)
  have d: "distinct (elements ?ie1)"
    using Cons.prems(2) by (simp add: elements_def distinct_map_filter)
  have "Remove_each vs ?ie1 =
       Returned () (?ie1\<lparr>fragments := filter (\<lambda>f. Some (fst f) \<notin> set vs) (fragments ?ie1)\<rparr>)"
    using Cons.IH [OF _ d] Cons.prems(1) by simp
  moreover have "filter (\<lambda>f. Some (fst f) \<notin> set vs) (filter (\<lambda>f. fst f \<noteq> h) (fragments ie))
      = filter (\<lambda>f. Some (fst f) \<notin> set (e # vs)) (fragments ie)"
    using h by (auto intro: filter_cong)
  ultimately show ?case using r by simp
qed

lemma values_at_live:
  assumes "editor_inv ie"
  shows "\<forall>e \<in> set (values_at ie k). e \<noteq> None \<and> live ie e"
proof (cases "vals ie k")
  case None
  then show ?thesis by (simp add: values_at_def)
next
  case (Some vs)
  then have "\<forall>e \<in> set vs. live ie e" using assms unfolding editor_inv_def by blast
  then show ?thesis using Some by (auto simp add: values_at_def live_def)
qed

text \<open>The editor after \<^verbatim>\<open>Del\<close> of the qualified key \<open>k\<close>.\<close>

definition without_key :: "string \<Rightarrow> IniEditor \<Rightarrow> IniEditor" where
  "without_key k ie =
     ie\<lparr>fragments := filter (\<lambda>f. Some (fst f) \<notin> set (values_at ie k)) (fragments ie),
        vals := (vals ie)(k := None)\<rparr>"

lemma Del_result:
  assumes "editor_inv ie" "IniQKey is' key = Inr k"
  shows "IniEditor_Del is' key ie = Returned () (without_key k ie)"
proof -
  have "\<forall>e \<in> set (values_at ie k). e \<noteq> None" using values_at_live [OF assms(1)] by simp
  moreover have "distinct (elements ie)" using assms(1) by (simp add: editor_inv_def)
  ultimately show ?thesis
    using assms(2) by (simp add: IniEditor_Del_def Remove_each_filter without_key_def)
qed

lemma without_key_inv:
  assumes inv: "editor_inv ie"
  shows "editor_inv (without_key k ie)"
proof -
  let ?ie = "without_key k ie"
  let ?vs = "values_at ie k"
  have el: "set (elements ?ie) = {h \<in> set (elements ie). Some h \<notin> set ?vs}"
    by (auto simp add: without_key_def elements_def)
  have d: "distinct (elements ?ie)"
    using inv by (simp add: without_key_def elements_def editor_inv_def distinct_map_filter)
  have n: "nextElement ?ie = nextElement ie" by (simp add: without_key_def)
  have disj: "vals ie a = Some xs \<Longrightarrow> a \<noteq> k \<Longrightarrow> set xs \<inter> set ?vs = {}" for a xs
    using inv unfolding editor_inv_def
    by (cases "vals ie k") (auto simp add: values_at_def)
  have keep: "live ie e \<Longrightarrow> e \<notin> set ?vs \<Longrightarrow> live ?ie e" for e
    by (auto simp add: live_def el)
  have 3: "\<forall>k' vs. vals ?ie k' = Some vs \<longrightarrow> vs \<noteq> [] \<and> distinct vs \<and> (\<forall>e \<in> set vs. live ?ie e)"
  proof (intro allI impI)
    fix k' vs
    assume a: "vals ?ie k' = Some vs"
    then have v: "vals ie k' = Some vs" "k' \<noteq> k" by (auto simp add: without_key_def split: if_splits)
    then have "vs \<noteq> [] \<and> distinct vs \<and> (\<forall>e \<in> set vs. live ie e)"
      using inv unfolding editor_inv_def by blast
    then show "vs \<noteq> [] \<and> distinct vs \<and> (\<forall>e \<in> set vs. live ?ie e)"
      using disj [OF v] keep by auto
  qed
  have 4: "\<forall>k1 k2 vs vs'. vals ?ie k1 = Some vs \<and> vals ?ie k2 = Some vs' \<and> k1 \<noteq> k2
            \<longrightarrow> set vs \<inter> set vs' = {}"
  proof (intro allI impI, elim conjE)
    fix k1 k2 vs vs'
    assume "vals ?ie k1 = Some vs" "vals ?ie k2 = Some vs'" "k1 \<noteq> k2"
    then have "vals ie k1 = Some vs" "vals ie k2 = Some vs'" "k1 \<noteq> k2"
      by (auto simp add: without_key_def split: if_splits)
    then show "set vs \<inter> set vs' = {}" using inv unfolding editor_inv_def by blast
  qed
  have 5: "\<forall>s e. secEnd ?ie s = Some e \<longrightarrow> live ?ie e \<and> \<not> keyed ?ie e"
  proof (intro allI impI)
    fix s e
    assume "secEnd ?ie s = Some e"
    then have "secEnd ie s = Some e" by (simp add: without_key_def)
    then have le: "live ie e" and ke: "\<not> keyed ie e"
      using inv unfolding editor_inv_def by blast+
    have "e \<notin> set ?vs" using ke by (cases "vals ie k") (auto simp add: keyed_def values_at_def)
    moreover have "\<not> keyed ?ie e"
      using ke by (auto simp add: keyed_def without_key_def split: if_splits)
    ultimately show "live ?ie e \<and> \<not> keyed ?ie e" using keep [OF le] by simp
  qed
  have 2: "\<forall>h \<in> set (elements ?ie). h < nextElement ?ie"
    using inv el n by (auto simp add: editor_inv_def)
  show ?thesis
    unfolding editor_inv_def using d 2 3 4 5 by blast
qed

lemma without_absent_key: "vals ie k = None \<Longrightarrow> without_key k ie = ie"
proof -
  assume a: "vals ie k = None"
  then have "(vals ie)(k := None) = vals ie" by (simp add: fun_upd_idem)
  then show ?thesis using a by (simp add: without_key_def values_at_def)
qed


lemma Del_example:
  "(case NewIniEdit ''f'' (''[core]\<newline>'' @ [CHR 0x09] @ ''foo = 1\<newline>'' @ [CHR 0x09] @ ''foo = 2\<newline>'') of
      Inr (None, ie) \<Rightarrow>
        (case IniEditor_Del (Some \<lparr>Section = ''core'', Subsection = None\<rparr>) ''foo'' ie of
           Returned u ie' \<Rightarrow> IniEditor_String ie' = ''[core]\<newline>''
         | Panicked p ie' \<Rightarrow> False)
    | Inr (Some errs, ie) \<Rightarrow> False
    | Inl p \<Rightarrow> False)"
  by code_simp

text \<open>
  Claim C4. In an editor that satisfies \<open>editor_inv\<close> (every editor that \<^verbatim>\<open>NewIniEdit\<close>
  returns does, and \<^verbatim>\<open>Del\<close> keeps it), \<^verbatim>\<open>Del\<close> of a valid section and key returns the
  editor without the fragments that were indexed under the qualified key and without the
  key's index entry: a lookup then finds nothing, no entry of the key index is an empty
  list, and nothing changes when the key was absent. After parsing \<^verbatim>\<open>[core]\<close>,
  \<^verbatim>\<open>foo = 1\<close>, \<^verbatim>\<open>foo = 2\<close> (each key line after a tab), \<^verbatim>\<open>Del(core, foo)\<close> leaves the
  text \<^verbatim>\<open>[core]\<close> and newline.
\<close>

theorem Del_removes_key:
  "(editor_inv ie \<and> IniQKey is' key = Inr k \<longrightarrow>
      IniEditor_Del is' key ie =
        Returned () (ie\<lparr>fragments := filter (\<lambda>f. Some (fst f) \<notin> set (values_at ie k)) (fragments ie),
                        vals := (vals ie)(k := None)\<rparr>)
      \<and> (\<forall>ie'. IniEditor_Del is' key ie = Returned () ie' \<longrightarrow>
             editor_inv ie' \<and> vals ie' k = None \<and> values_at ie' k = []
             \<and> (\<forall>k' vs. vals ie' k' = Some vs \<longrightarrow> vs \<noteq> [])
             \<and> (\<forall>f \<in> set (fragments ie'). Some (fst f) \<notin> set (values_at ie k)))
      \<and> (vals ie k = None \<longrightarrow> IniEditor_Del is' key ie = Returned () ie))
   \<and> (case NewIniEdit ''f'' (''[core]\<newline>'' @ [CHR 0x09] @ ''foo = 1\<newline>'' @ [CHR 0x09] @ ''foo = 2\<newline>'') of
         Inr (None, ie) \<Rightarrow>
           (case IniEditor_Del (Some \<lparr>Section = ''core'', Subsection = None\<rparr>) ''foo'' ie of
              Returned u ie' \<Rightarrow> IniEditor_String ie' = ''[core]\<newline>''
            | Panicked p ie' \<Rightarrow> False)
       | Inr (Some errs, ie) \<Rightarrow> False
       | Inl p \<Rightarrow> False)"
proof -
  have g: "IniEditor_Del is' key ie =
        Returned () (ie\<lparr>fragments := filter (\<lambda>f. Some (fst f) \<notin> set (values_at ie k)) (fragments ie),
                        vals := (vals ie)(k := None)\<rparr>)
      \<and> (\<forall>ie'. IniEditor_Del is' key ie = Returned () ie' \<longrightarrow>
             editor_inv ie' \<and> vals ie' k = None \<and> values_at ie' k = []
             \<and> (\<forall>k' vs. vals ie' k' = Some vs \<longrightarrow> vs \<noteq> [])
             \<and> (\<forall>f \<in> set (fragments ie'). Some (fst f) \<notin> set (values_at ie k)))
      \<and> (vals ie k = None \<longrightarrow> IniEditor_Del is' key ie = Returned () ie)"
    if inv: "editor_inv ie" and q: "IniQKey is' key = Inr k"
  proof -
    note r = Del_result [OF inv q]
    note i = without_key_inv [OF inv, of k]
    have e: "\<forall>k' vs. vals (without_key k ie) k' = Some vs \<longrightarrow> vs \<noteq> []"
      using i unfolding editor_inv_def by blast
    have p: "vals (without_key k ie) k = None" "values_at (without_key k ie) k = []"
      "\<forall>f \<in> set (fragments (without_key k ie)). Some (fst f) \<notin> set (values_at ie k)"
      by (simp_all add: without_key_def values_at_def)
    have a: "vals ie k = None \<longrightarrow> IniEditor_Del is' key ie = Returned () ie"
      using r without_absent_key [of ie k] by simp
    have w: "without_key k ie =
        ie\<lparr>fragments := filter (\<lambda>f. Some (fst f) \<notin> set (values_at ie k)) (fragments ie),
           vals := (vals ie)(k := None)\<rparr>"
      by (simp add: without_key_def)
    have b: "\<forall>ie'. IniEditor_Del is' key ie = Returned () ie' \<longrightarrow>
             editor_inv ie' \<and> vals ie' k = None \<and> values_at ie' k = []
             \<and> (\<forall>k' vs. vals ie' k' = Some vs \<longrightarrow> vs \<noteq> [])
             \<and> (\<forall>f \<in> set (fragments ie'). Some (fst f) \<notin> set (values_at ie k))"
    proof (intro allI impI)
      fix ie'
      assume "IniEditor_Del is' key ie = Returned () ie'"
      then have "ie' = without_key k ie" using r by simp
      then show "editor_inv ie' \<and> vals ie' k = None \<and> values_at ie' k = []
             \<and> (\<forall>k' vs. vals ie' k' = Some vs \<longrightarrow> vs \<noteq> [])
             \<and> (\<forall>f \<in> set (fragments ie'). Some (fst f) \<notin> set (values_at ie k))"
        using i e p by (simp only:)
    qed
    show ?thesis
      by (intro conjI) (rule r [unfolded w], rule b, rule a)
  qed
  show ?thesis
  proof (rule conjI)
    show "editor_inv ie \<and> IniQKey is' key = Inr k \<longrightarrow>
      IniEditor_Del is' key ie =
        Returned () (ie\<lparr>fragments := filter (\<lambda>f. Some (fst f) \<notin> set (values_at ie k)) (fragments ie),
                        vals := (vals ie)(k := None)\<rparr>)
      \<and> (\<forall>ie'. IniEditor_Del is' key ie = Returned () ie' \<longrightarrow>
             editor_inv ie' \<and> vals ie' k = None \<and> values_at ie' k = []
             \<and> (\<forall>k' vs. vals ie' k' = Some vs \<longrightarrow> vs \<noteq> [])
             \<and> (\<forall>f \<in> set (fragments ie'). Some (fst f) \<notin> set (values_at ie k)))
      \<and> (vals ie k = None \<longrightarrow> IniEditor_Del is' key ie = Returned () ie)"
      by (rule impI, elim conjE, rule g)
  qed (rule Del_example)
qed


theorem Del_removes_key_witness:
  "\<exists>ie. NewIniEdit ''f'' (''[core]\<newline>'' @ [CHR 0x09] @ ''foo = 1\<newline>'') = Inr (None, ie)
     \<and> editor_inv ie
     \<and> IniQKey (Some \<lparr>Section = ''core'', Subsection = None\<rparr>) ''foo'' = Inr ''core.foo''
     \<and> (\<exists>ie'. IniEditor_Del (Some \<lparr>Section = ''core'', Subsection = None\<rparr>) ''foo'' ie = Returned () ie'
             \<and> vals ie' ''core.foo'' = None \<and> editor_inv ie')"
proof -
  obtain ie where p: "NewIniEdit ''f'' (''[core]\<newline>'' @ [CHR 0x09] @ ''foo = 1\<newline>'') = Inr (None, ie)"
    using parse_core_foo
    by (cases "NewIniEdit ''f'' (''[core]\<newline>'' @ [CHR 0x09] @ ''foo = 1\<newline>'')") auto
  have inv: "editor_inv ie" using NewIniEdit_result [OF p] by simp
  have q: "IniQKey (Some \<lparr>Section = ''core'', Subsection = None\<rparr>) ''foo'' = Inr ''core.foo''"
    by (simp add: IniQKey_def IniSection_Valid_def ValidIniSection_core ValidIniKey_def
          isAlpha_iff IndexFunc_def isKeyChar_iff)
  note t = Del_removes_key [of ie "Some \<lparr>Section = ''core'', Subsection = None\<rparr>" "''foo''"
      "''core.foo''", THEN conjunct1, THEN mp, OF conjI [OF inv q]]
  note d = t [THEN conjunct1]
  note c = t [THEN conjunct2, THEN conjunct1, THEN spec, THEN mp, OF d]
  have "\<exists>ie'. IniEditor_Del (Some \<lparr>Section = ''core'', Subsection = None\<rparr>) ''foo'' ie = Returned () ie'
             \<and> vals ie' ''core.foo'' = None \<and> editor_inv ie'"
    by (intro exI conjI) (rule d, rule c [THEN conjunct2, THEN conjunct1], rule c [THEN conjunct1])
  with p inv q show ?thesis by (intro exI [of _ ie]) (simp only: simp_thms)
qed

end
